theory Spec2Isabelle
  imports Main "HOL-Library.Word" "HOL-Library.AList"
begin

unbundle bit_operations_syntax

section \<open>Outcomes of the C functions\<close>

text \<open>
  Every function of the extension either returns or leaves through \<open>rb_raise\<close>.
  \<open>Raise msg\<close> is \<open>rb_raise(rb_eArgError, msg)\<close> (the format arguments of the message
  are dropped); \<open>Undefined what\<close> marks a point where the C code reads outside an
  array or otherwise has no defined behaviour, so the model says nothing about what
  follows.
\<close>

datatype error = Raise string | Undefined string

section \<open>Machine integers\<close>

text \<open>
  C's \<open>int\<close> is 32 bits wide on every platform Ruby builds on. \<open>int32\<close> wraps an
  integer into that range (what the compiled code does on signed overflow and when a
  wider value is stored in an \<open>int\<close>); \<open>c_div\<close> and \<open>c_mod\<close> are C's \<open>/\<close> and \<open>%\<close>,
  which truncate towards zero.
\<close>

definition int32 :: "int \<Rightarrow> int" where
  "int32 x = (x + 2 ^ 31) mod 2 ^ 32 - 2 ^ 31"

definition c_div :: "int \<Rightarrow> int \<Rightarrow> int" where
  "c_div a b = sgn a * sgn b * (\<bar>a\<bar> div \<bar>b\<bar>)"

definition c_mod :: "int \<Rightarrow> int \<Rightarrow> int" where
  "c_mod a b = a - b * c_div a b"

type_synonym byte = "8 word"
type_synonym u32 = "32 word"
type_synonym VALUE = "64 word"

section \<open>Leaf tables (nodedump.c, part 3)\<close>

text \<open>
  A Ruby \<open>Hash\<close> keeps its keys in insertion order. It is modelled as an association
  list: \<open>rb_hash_aref\<close> is the lookup (\<open>None\<close> for \<open>Qnil\<close>), \<open>rb_hash_aset\<close> replaces
  the value of a present key in place and appends an absent one.
\<close>

definition rb_hash_aref :: "('k \<times> 'v) list \<Rightarrow> 'k \<Rightarrow> 'v option" where
  "rb_hash_aref h k = map_of h k"

definition rb_hash_aset :: "('k \<times> 'v) list \<Rightarrow> 'k \<Rightarrow> 'v \<Rightarrow> ('k \<times> 'v) list" where
  "rb_hash_aset h k v = AList.update k v h"

text \<open>
  \<open>LeafTableInfo\<close>: \<open>vals\<close> is the key => value hash, \<open>ids\<close> the key => ordinal hash
  (its values are \<open>INT2FIX(id)\<close>, never \<open>Qnil\<close>), \<open>pos\<close> the next free ordinal. The
  counter is a \<open>VALUE\<close>, a 64-bit word; \<open>int id = lti->pos++\<close> stores it in an \<open>int\<close>,
  so the ordinal is the counter wrapped to 32 bits. \<open>INT2FIX\<close> and \<open>FIX2INT\<close> keep
  every \<open>int\<close> as it is.
\<close>

record ('k, 'v) LeafTableInfo =
  vals :: "('k \<times> 'v) list"
  ids :: "('k \<times> int) list"
  pos :: VALUE

definition LeafTableInfo_init :: "('k, 'v) LeafTableInfo" where
  "LeafTableInfo_init = \<lparr> vals = [], ids = [], pos = 0 \<rparr>"

definition LeafTableInfo_addEntry ::
  "('k, 'v) LeafTableInfo \<Rightarrow> 'k \<Rightarrow> 'v \<Rightarrow> ('k, 'v) LeafTableInfo \<times> int" where
  "LeafTableInfo_addEntry lti key val =
     (case rb_hash_aref (ids lti) key of
        None \<Rightarrow>
          (let ident = int32 (uint (pos lti)) in
           (lti \<lparr> pos := pos lti + 1,
                  vals := rb_hash_aset (vals lti) key val,
                  ids := rb_hash_aset (ids lti) key ident \<rparr>, ident))
      | Some v_id \<Rightarrow> (lti, v_id))"

definition LeafTableInfo_keyToID :: "('k, 'v) LeafTableInfo \<Rightarrow> 'k \<Rightarrow> int" where
  "LeafTableInfo_keyToID lti key =
     (case rb_hash_aref (ids lti) key of None \<Rightarrow> - 1 | Some ident \<Rightarrow> ident)"

text \<open>
  \<open>LeafTableInfo_getLeavesTable\<close> takes the array of the keys of \<open>vals\<close> and overwrites
  its first \<open>pos\<close> cells with the values stored under them. A cell of the result is a
  value (\<open>Inr\<close>) or, beyond \<open>pos\<close>, still a key (\<open>Inl\<close>). The loop counter is an
  \<open>unsigned int\<close>, and the cells are read without a check against the array's length.
\<close>

definition LeafTableInfo_getLeavesTable ::
  "('k, 'v) LeafTableInfo \<Rightarrow> error + ('k + 'v) list" where
  "LeafTableInfo_getLeavesTable lti =
     (let keys = map fst (vals lti) in
      if 2 ^ 32 \<le> unat (pos lti)
      then Inl (Undefined ''the unsigned int counter never reaches pos'')
      else if length keys < unat (pos lti)
      then Inl (Undefined ''keys array read past its end'')
      else Inr (map (\<lambda>key. Inr (the (rb_hash_aref (vals lti) key))) (take (unat (pos lti)) keys)
                @ map Inl (drop (unat (pos lti)) keys)))"

text \<open>A run of insertions, with the ordinal each call returned.\<close>

fun addEntries ::
  "('k, 'v) LeafTableInfo \<Rightarrow> ('k \<times> 'v) list \<Rightarrow> ('k, 'v) LeafTableInfo \<times> int list" where
  "addEntries lti [] = (lti, [])"
| "addEntries lti ((k, v) # kvs) =
     (let (lti1, ident) = LeafTableInfo_addEntry lti k v;
          (lti2, ords) = addEntries lti1 kvs
      in (lti2, ident # ords))"

text \<open>
  Specification side: the distinct keys of a run in the order of their first insertion,
  and the position of a key in a list.
\<close>

fun first_seen :: "'k list \<Rightarrow> 'k list \<Rightarrow> 'k list" where
  "first_seen acc [] = acc"
| "first_seen acc (k # ks) = first_seen (if k \<in> set acc then acc else acc @ [k]) ks"

definition position :: "'k list \<Rightarrow> 'k \<Rightarrow> int" where
  "position ks k = int (length (takeWhile (\<lambda>x. x \<noteq> k) ks))"

text \<open>
  The invariant of a table built by \<open>LeafTableInfo_addEntry\<close>: \<open>pos\<close> counts the keys,
  and the ordinals stored in \<open>ids\<close> are 0, 1, 2, ... in insertion order, each wrapped
  to an \<open>int\<close>, one per key.
\<close>

definition lti_inv :: "('k, 'v) LeafTableInfo \<Rightarrow> bool" where
  "lti_inv t \<longleftrightarrow>
     map snd (ids t) = map (\<lambda>i. int32 (int i)) [0..<length (ids t)]
     \<and> pos t = of_nat (length (ids t))
     \<and> distinct (map fst (ids t))"


section \<open>The text codec (base85r.c)\<close>

text \<open>\<open>di_val\<close>: the powers of 85, most significant first.\<close>

definition di_val :: "u32 list" where
  "di_val = [52200625, 614125, 7225, 85, 1]"

text \<open>\<open>val_to_char\<close>: the 85 digits of the modified alphabet.\<close>

definition val_to_char :: "byte list" where
  "val_to_char = map (\<lambda>c. of_nat (of_char c))
     (''ABCDEFGHIJKLMNOPQRSTUVWXYZ'' @
      ''abcdefghijklmnopqrstuvwxyz'' @
      ''0123456789'' @
      ''!$%&()*-./'' @
      '':;<=>?@[]^'' @
      '',_|'')"

text \<open>
  \<open>base85r_init_tables\<close> fills \<open>char_to_val\<close>, the table of 128 \<open>int\<close>s that maps a
  character code to its digit and every other code to -1, and checks it.
\<close>

fun fill_char_to_val :: "nat list \<Rightarrow> int list \<Rightarrow> error + int list" where
  "fill_char_to_val [] tbl = Inr tbl"
| "fill_char_to_val (i # rest) tbl =
     (if tbl ! unat (val_to_char ! i) \<noteq> - 1 then Inl (Raise ''Internal error'')
      else fill_char_to_val rest (tbl [unat (val_to_char ! i) := int i]))"

fun check_char_to_val :: "nat list \<Rightarrow> int list \<Rightarrow> error + int list" where
  "check_char_to_val [] tbl = Inr tbl"
| "check_char_to_val (i # rest) tbl =
     (if tbl ! unat (val_to_char ! i) \<noteq> int i then Inl (Raise ''Internal error'')
      else check_char_to_val rest tbl)"

definition base85r_init_tables :: "error + int list" where
  "base85r_init_tables =
     (case fill_char_to_val [0..<85] (replicate 128 (- 1)) of
        Inl e \<Rightarrow> Inl e
      | Inr tbl \<Rightarrow> check_char_to_val [0..<85] tbl)"

definition char_to_val :: "int list" where
  "char_to_val = (case base85r_init_tables of Inr tbl \<Rightarrow> tbl | Inl e \<Rightarrow> [])"

text \<open>\<open>base85_encode_buf_len\<close>, in 32-bit \<open>int\<close> arithmetic.\<close>

definition base85_encode_buf_len :: "int \<Rightarrow> int" where
  "base85_encode_buf_len len =
     (let buf_len = int32 ((len div 4) * 4);
          buf_len = (if c_mod len 4 \<noteq> 0 then int32 (buf_len + 4) else buf_len);
          buf_len = c_div (int32 (buf_len * 5)) 4;
          buf_len = c_div (int32 (buf_len * 105)) 100
      in int32 (buf_len + 32))"

text \<open>
  Ruby's \<open>rb_str_new\<close> and \<open>rb_str_resize\<close> raise an \<open>ArgumentError\<close> on a negative
  length. The error class is not tracked: every \<open>ArgumentError\<close> is a \<open>Raise\<close>.
\<close>

definition negative_size :: error where
  "negative_size = Raise ''negative string size (or size too big)''"

definition rb_str_resize :: "byte list \<Rightarrow> int \<Rightarrow> error + byte list" where
  "rb_str_resize str len = (if len < 0 then Inl negative_size else Inr (take (nat len) str))"

text \<open>
  One group of the encoder: \<open>get_four\<close> is the loop \<open>for (i = 24; i >= 0; i -= 8)\<close>
  that reads up to four bytes from \<open>pos\<close> (here \<open>ipos\<close>) into \<open>val\<close>, \<open>put_five\<close> the loop that
  writes the five digits of \<open>val\<close>.
\<close>

fun get_four :: "byte list \<Rightarrow> nat list \<Rightarrow> nat \<Rightarrow> u32 \<Rightarrow> u32 \<times> nat" where
  "get_four inptr [] ipos val = (val, ipos)"
| "get_four inptr (i # rest) ipos val =
     (if ipos < length inptr
      then get_four inptr rest (ipos + 1) (val OR push_bit i (ucast (inptr ! ipos)))
      else get_four inptr rest ipos val)"

definition put_five :: "u32 \<Rightarrow> byte list" where
  "put_five val = map (\<lambda>d. val_to_char ! unat ((val div d) mod 85)) di_val"

lemma get_four_ipos:
  "ipos < length inptr \<Longrightarrow> ipos < snd (get_four inptr (i # rest) ipos val)"
  "ipos \<le> snd (get_four inptr shifts ipos val)"
proof -
  show le: "ipos \<le> snd (get_four inptr shifts ipos val)" for shifts ipos val
  proof (induction shifts arbitrary: ipos val)
    case Nil
    show ?case by simp
  next
    case (Cons i rest)
    show ?case using Cons [of "ipos + 1"] Cons [of ipos] by (auto simp: Suc_le_eq less_imp_le)
  qed
  show "ipos < length inptr \<Longrightarrow> ipos < snd (get_four inptr (i # rest) ipos val)"
    using le [of "ipos + 1" rest] by (auto simp: Suc_le_eq)
qed

function encode_loop :: "byte list \<Rightarrow> nat \<Rightarrow> byte list" where
  "encode_loop inptr ipos =
     (if ipos < length inptr then
        (let (val, ipos1) = get_four inptr [24, 16, 8, 0] ipos 0
         in put_five val @ (if ipos1 mod (4 * 14) = 0 then [10, 32] else [])
              @ encode_loop inptr ipos1)
      else [])"
  by pat_completeness auto
termination
proof (relation "measure (\<lambda>(inptr, ipos). length inptr - ipos)")
  show "wf (measure (\<lambda>(inptr, ipos). length inptr - ipos))" by simp
next
  fix inptr :: "byte list" and ipos x xa y
  assume "ipos < length inptr" and "x = get_four inptr [24, 16, 8, 0] ipos 0" and "(xa, y) = x"
  then have "ipos < y" using get_four_ipos(1) [of ipos inptr 24 "[16, 8, 0]" 0]
    by (metis snd_conv)
  with \<open>ipos < length inptr\<close> show "((inptr, y), inptr, ipos) \<in> measure (\<lambda>(inptr, ipos). length inptr - ipos)"
    by simp
qed

declare encode_loop.simps [simp del]

text \<open>
  \<open>base85r_encode\<close>. The length of the input is stored in the \<open>int\<close> \<open>inp_len\<close>, and
  the loop reads the bytes below \<open>inp_len\<close>. The output buffer has \<open>out_buf_len\<close>
  bytes; the C code writes first and compares \<open>outpos\<close> with \<open>out_buf_len\<close> afterwards,
  so a run that wrote past the buffer has no defined behaviour.
\<close>

definition base85r_encode :: "byte list \<Rightarrow> error + byte list" where
  "base85r_encode input =
     (let inp_len = int32 (int (length input));
          out_buf_len = base85_encode_buf_len inp_len
      in if out_buf_len < 0 then Inl negative_size
         else if inp_len < 0 then Inl (Undefined ''val_to_char read at a negative index'')
         else
           (let out = [32, val_to_char ! nat (c_mod inp_len 4)]
                        @ encode_loop (take (nat inp_len) input) 0;
                outpos = int (length out)
            in if outpos > out_buf_len then Inl (Undefined ''write past the output buffer'')
               else if outpos \<ge> out_buf_len
               then Inl (Raise ''base85r_encode: internal memory error'')
               else rb_str_resize out outpos))"

text \<open>
  \<open>base85r_decode\<close>. The length of the input is stored in the \<open>int\<close> \<open>inp_len\<close>, and
  the loop reads the bytes below \<open>inp_len\<close>. The loop state is
  \<open>(tail_len, shift, val, out)\<close>. The table has
  128 entries and is indexed with an \<open>unsigned char\<close>: a byte above 127 reads outside
  it. \<open>digit * di_val[shift]\<close> is a product of \<open>int\<close>s added to the unsigned \<open>val\<close>;
  on 32 bits that is the wrapping product of the model.
\<close>

definition put_four :: "u32 \<Rightarrow> byte list" where
  "put_four val = map (\<lambda>i. ucast (drop_bit i val AND 0xFF)) [24, 16, 8, 0]"

fun decode_loop ::
  "byte list \<Rightarrow> int \<times> nat \<times> u32 \<times> byte list \<Rightarrow> error + int \<times> nat \<times> u32 \<times> byte list" where
  "decode_loop [] st = Inr st"
| "decode_loop (c # rest) (tail_len, shift, val, out) =
     (if 128 \<le> unat c then Inl (Undefined ''char_to_val read out of range'')
      else
        (let digit = char_to_val ! unat c in
         if digit \<noteq> - 1 then
           (if tail_len = - 1 then
              (if digit > 4 then Inl (Raise ''base85r_decode: input string is corrupted'')
               else decode_loop rest (digit, shift, val, out))
            else
              (let val1 = val + of_int digit * (di_val ! shift); shift1 = shift + 1
               in if shift1 = 5 then decode_loop rest (tail_len, 0, 0, out @ put_four val1)
                  else decode_loop rest (tail_len, shift1, val1, out)))
         else decode_loop rest (tail_len, shift, val, out)))"

definition base85r_decode :: "byte list \<Rightarrow> error + byte list" where
  "base85r_decode input =
     (let inp_len = int32 (int (length input)) in
      if inp_len < 6 \<and> inp_len \<noteq> 2
      then Inl (Raise ''base85r_decode: input string is too short'')
      else
        (case decode_loop (take (nat inp_len) input) (- 1, 0, 0, []) of
           Inl e \<Rightarrow> Inl e
         | Inr (tail_len, shift, val, out) \<Rightarrow>
             if shift \<noteq> 0 then Inl (Raise ''base85r_decode: input string is corrupted'')
             else
               (let out_len = int (length out);
                    out_len = (if tail_len \<noteq> 0 then int32 (out_len - (4 - tail_len)) else out_len)
                in rb_str_resize out out_len)))"

text \<open>
  \<open>padded s s'\<close>: the string \<open>s'\<close> is \<open>s\<close> with bytes inserted that are 7-bit codes
  outside the alphabet (blanks, line breaks, ...), at any positions.
\<close>

definition skipped :: "byte \<Rightarrow> bool" where
  "skipped c \<longleftrightarrow> unat c < 128 \<and> char_to_val ! unat c = - 1"

inductive padded :: "byte list \<Rightarrow> byte list \<Rightarrow> bool" where
  padded_Nil: "padded [] []"
| padded_keep: "padded s s' \<Longrightarrow> padded (c # s) (c # s')"
| padded_skip: "skipped c \<Longrightarrow> padded s s' \<Longrightarrow> padded s (c # s')"


section \<open>The schema registry (nodedump.h, node220.h, nodeinfo.c)\<close>

text \<open>
  The sources are modelled as they are compiled for Ruby 2.2 on a 64-bit platform, the
  configuration whose node header (\<open>node220.h\<close>) is part of the repository:
  \<open>USE_RB_ARGS_INFO\<close> is defined, \<open>RESET_GC_FLAGS\<close> is not, and \<open>VALUE\<close> and \<open>ID\<close>
  are 64-bit words.
\<close>

subsection \<open>Slot types and value locations (nodedump.h)\<close>

definition NT_NULL :: int where "NT_NULL = 0"

definition NT_UNKNOWN :: int where "NT_UNKNOWN = 1"

definition NT_NODE :: int where "NT_NODE = 2"

definition NT_VALUE :: int where "NT_VALUE = 3"

definition NT_ID :: int where "NT_ID = 4"

definition NT_INTEGER :: int where "NT_INTEGER = 5"

definition NT_LONG :: int where "NT_LONG = 5"

definition NT_ARGS :: int where "NT_ARGS = 6"

definition NT_ENTRY :: int where "NT_ENTRY = 7"

definition NT_IDTABLE :: int where "NT_IDTABLE = 8"

definition NT_MEMORY :: int where "NT_MEMORY = 9"

definition VL_RAW :: int where "VL_RAW = 0"

definition VL_NODE :: int where "VL_NODE = 1"

definition VL_ID :: int where "VL_ID = 2"

definition VL_GVAR :: int where "VL_GVAR = 3"

definition VL_IDTABLE :: int where "VL_IDTABLE = 4"

definition VL_ARGS :: int where "VL_ARGS = 5"

definition VL_LIT :: int where "VL_LIT = 6"

definition NODEMARSHAL_MAGIC :: string where
  "NODEMARSHAL_MAGIC = ''NODEMARSHAL11''"

subsection \<open>\<open>enum node_type\<close> (node220.h)\<close>

definition NODE_SCOPE :: int where "NODE_SCOPE = 0"

definition NODE_BLOCK :: int where "NODE_BLOCK = 1"

definition NODE_IF :: int where "NODE_IF = 2"

definition NODE_CASE :: int where "NODE_CASE = 3"

definition NODE_WHEN :: int where "NODE_WHEN = 4"

definition NODE_OPT_N :: int where "NODE_OPT_N = 5"

definition NODE_WHILE :: int where "NODE_WHILE = 6"

definition NODE_UNTIL :: int where "NODE_UNTIL = 7"

definition NODE_ITER :: int where "NODE_ITER = 8"

definition NODE_FOR :: int where "NODE_FOR = 9"

definition NODE_BREAK :: int where "NODE_BREAK = 10"

definition NODE_NEXT :: int where "NODE_NEXT = 11"

definition NODE_REDO :: int where "NODE_REDO = 12"

definition NODE_RETRY :: int where "NODE_RETRY = 13"

definition NODE_BEGIN :: int where "NODE_BEGIN = 14"

definition NODE_RESCUE :: int where "NODE_RESCUE = 15"

definition NODE_RESBODY :: int where "NODE_RESBODY = 16"

definition NODE_ENSURE :: int where "NODE_ENSURE = 17"

definition NODE_AND :: int where "NODE_AND = 18"

definition NODE_OR :: int where "NODE_OR = 19"

definition NODE_MASGN :: int where "NODE_MASGN = 20"

definition NODE_LASGN :: int where "NODE_LASGN = 21"

definition NODE_DASGN :: int where "NODE_DASGN = 22"

definition NODE_DASGN_CURR :: int where "NODE_DASGN_CURR = 23"

definition NODE_GASGN :: int where "NODE_GASGN = 24"

definition NODE_IASGN :: int where "NODE_IASGN = 25"

definition NODE_IASGN2 :: int where "NODE_IASGN2 = 26"

definition NODE_CDECL :: int where "NODE_CDECL = 27"

definition NODE_CVASGN :: int where "NODE_CVASGN = 28"

definition NODE_CVDECL :: int where "NODE_CVDECL = 29"

definition NODE_OP_ASGN1 :: int where "NODE_OP_ASGN1 = 30"

definition NODE_OP_ASGN2 :: int where "NODE_OP_ASGN2 = 31"

definition NODE_OP_ASGN_AND :: int where "NODE_OP_ASGN_AND = 32"

definition NODE_OP_ASGN_OR :: int where "NODE_OP_ASGN_OR = 33"

definition NODE_OP_CDECL :: int where "NODE_OP_CDECL = 34"

definition NODE_CALL :: int where "NODE_CALL = 35"

definition NODE_FCALL :: int where "NODE_FCALL = 36"

definition NODE_VCALL :: int where "NODE_VCALL = 37"

definition NODE_SUPER :: int where "NODE_SUPER = 38"

definition NODE_ZSUPER :: int where "NODE_ZSUPER = 39"

definition NODE_ARRAY :: int where "NODE_ARRAY = 40"

definition NODE_ZARRAY :: int where "NODE_ZARRAY = 41"

definition NODE_VALUES :: int where "NODE_VALUES = 42"

definition NODE_HASH :: int where "NODE_HASH = 43"

definition NODE_RETURN :: int where "NODE_RETURN = 44"

definition NODE_YIELD :: int where "NODE_YIELD = 45"

definition NODE_LVAR :: int where "NODE_LVAR = 46"

definition NODE_DVAR :: int where "NODE_DVAR = 47"

definition NODE_GVAR :: int where "NODE_GVAR = 48"

definition NODE_IVAR :: int where "NODE_IVAR = 49"

definition NODE_CONST :: int where "NODE_CONST = 50"

definition NODE_CVAR :: int where "NODE_CVAR = 51"

definition NODE_NTH_REF :: int where "NODE_NTH_REF = 52"

definition NODE_BACK_REF :: int where "NODE_BACK_REF = 53"

definition NODE_MATCH :: int where "NODE_MATCH = 54"

definition NODE_MATCH2 :: int where "NODE_MATCH2 = 55"

definition NODE_MATCH3 :: int where "NODE_MATCH3 = 56"

definition NODE_LIT :: int where "NODE_LIT = 57"

definition NODE_STR :: int where "NODE_STR = 58"

definition NODE_DSTR :: int where "NODE_DSTR = 59"

definition NODE_XSTR :: int where "NODE_XSTR = 60"

definition NODE_DXSTR :: int where "NODE_DXSTR = 61"

definition NODE_EVSTR :: int where "NODE_EVSTR = 62"

definition NODE_DREGX :: int where "NODE_DREGX = 63"

definition NODE_DREGX_ONCE :: int where "NODE_DREGX_ONCE = 64"

definition NODE_ARGS :: int where "NODE_ARGS = 65"

definition NODE_ARGS_AUX :: int where "NODE_ARGS_AUX = 66"

definition NODE_OPT_ARG :: int where "NODE_OPT_ARG = 67"

definition NODE_KW_ARG :: int where "NODE_KW_ARG = 68"

definition NODE_POSTARG :: int where "NODE_POSTARG = 69"

definition NODE_ARGSCAT :: int where "NODE_ARGSCAT = 70"

definition NODE_ARGSPUSH :: int where "NODE_ARGSPUSH = 71"

definition NODE_SPLAT :: int where "NODE_SPLAT = 72"

definition NODE_TO_ARY :: int where "NODE_TO_ARY = 73"

definition NODE_BLOCK_ARG :: int where "NODE_BLOCK_ARG = 74"

definition NODE_BLOCK_PASS :: int where "NODE_BLOCK_PASS = 75"

definition NODE_DEFN :: int where "NODE_DEFN = 76"

definition NODE_DEFS :: int where "NODE_DEFS = 77"

definition NODE_ALIAS :: int where "NODE_ALIAS = 78"

definition NODE_VALIAS :: int where "NODE_VALIAS = 79"

definition NODE_UNDEF :: int where "NODE_UNDEF = 80"

definition NODE_CLASS :: int where "NODE_CLASS = 81"

definition NODE_MODULE :: int where "NODE_MODULE = 82"

definition NODE_SCLASS :: int where "NODE_SCLASS = 83"

definition NODE_COLON2 :: int where "NODE_COLON2 = 84"

definition NODE_COLON3 :: int where "NODE_COLON3 = 85"

definition NODE_CREF :: int where "NODE_CREF = 86"

definition NODE_DOT2 :: int where "NODE_DOT2 = 87"

definition NODE_DOT3 :: int where "NODE_DOT3 = 88"

definition NODE_FLIP2 :: int where "NODE_FLIP2 = 89"

definition NODE_FLIP3 :: int where "NODE_FLIP3 = 90"

definition NODE_SELF :: int where "NODE_SELF = 91"

definition NODE_NIL :: int where "NODE_NIL = 92"

definition NODE_TRUE :: int where "NODE_TRUE = 93"

definition NODE_FALSE :: int where "NODE_FALSE = 94"

definition NODE_ERRINFO :: int where "NODE_ERRINFO = 95"

definition NODE_DEFINED :: int where "NODE_DEFINED = 96"

definition NODE_POSTEXE :: int where "NODE_POSTEXE = 97"

definition NODE_ALLOCA :: int where "NODE_ALLOCA = 98"

definition NODE_BMETHOD :: int where "NODE_BMETHOD = 99"

definition NODE_MEMO :: int where "NODE_MEMO = 100"

definition NODE_IFUNC :: int where "NODE_IFUNC = 101"

definition NODE_DSYM :: int where "NODE_DSYM = 102"

definition NODE_ATTRASGN :: int where "NODE_ATTRASGN = 103"

definition NODE_PRELUDE :: int where "NODE_PRELUDE = 104"

definition NODE_LAMBDA :: int where "NODE_LAMBDA = 105"

definition NODE_LAST :: int where "NODE_LAST = 106"

subsection \<open>\<open>nodes_child_info\<close> (nodeinfo.c)\<close>

text \<open>Each row is a node type and the types of its three slots; the row of -1 ends the table.\<close>

definition nodes_child_info :: "int list list" where
  "nodes_child_info = [
     [NODE_BLOCK, NT_NODE, NT_NULL, NT_NODE],
     [NODE_IF, NT_NODE, NT_NODE, NT_NODE],
     [NODE_CASE, NT_NODE, NT_NODE, NT_NULL],
     [NODE_WHEN, NT_NODE, NT_NODE, NT_NODE],
     [NODE_OPT_N, NT_NULL, NT_NODE, NT_LONG],
     [NODE_WHILE, NT_NODE, NT_NODE, NT_LONG],
     [NODE_UNTIL, NT_NODE, NT_NODE, NT_LONG],
     [NODE_ITER, NT_VALUE, NT_NODE, NT_NODE],
     [NODE_FOR, NT_VALUE, NT_NODE, NT_NODE],
     [NODE_BREAK, NT_NODE, NT_NULL, NT_NULL],
     [NODE_NEXT, NT_NODE, NT_NULL, NT_NULL],
     [NODE_RETURN, NT_NODE, NT_NULL, NT_NULL],
     [NODE_REDO, NT_NULL, NT_NULL, NT_NULL],
     [NODE_RETRY, NT_NULL, NT_NULL, NT_NULL],
     [NODE_BEGIN, NT_NULL, NT_NODE, NT_NULL],
     [NODE_RESCUE, NT_NODE, NT_NODE, NT_NODE],
     [NODE_RESBODY, NT_NODE, NT_NODE, NT_NODE],
     [NODE_ENSURE, NT_NODE, NT_NULL, NT_NODE],
     [NODE_AND, NT_NODE, NT_NODE, NT_NULL],
     [NODE_OR, NT_NODE, NT_NODE, NT_NULL],
     [NODE_MASGN, NT_NODE, NT_NODE, NT_NODE],
     [NODE_LASGN, NT_ID, NT_NODE, NT_NULL],
     [NODE_DASGN, NT_ID, NT_NODE, NT_NULL],
     [NODE_DASGN_CURR, NT_ID, NT_NODE, NT_NULL],
     [NODE_IASGN, NT_ID, NT_NODE, NT_NULL],
     [NODE_CVASGN, NT_ID, NT_NODE, NT_NULL],
     [NODE_GASGN, NT_NULL, NT_NODE, NT_ENTRY],
     [NODE_CDECL, NT_ID, NT_NODE, NT_NODE],
     [NODE_OP_ASGN1, NT_NODE, NT_ID, NT_NODE],
     [NODE_OP_ASGN2, NT_NODE, NT_NODE, NT_NODE],
     [NODE_OP_ASGN_AND, NT_NODE, NT_NODE, NT_NULL],
     [NODE_OP_ASGN_OR, NT_NODE, NT_NODE, NT_NULL],
     [NODE_CALL, NT_NODE, NT_ID, NT_NODE],
     [NODE_FCALL, NT_NULL, NT_ID, NT_NODE],
     [NODE_VCALL, NT_NULL, NT_ID, NT_NULL],
     [NODE_SUPER, NT_NULL, NT_NULL, NT_NODE],
     [NODE_ZSUPER, NT_NULL, NT_NULL, NT_NULL],
     [NODE_ARRAY, NT_NODE, NT_LONG, NT_NODE],
     [NODE_VALUES, NT_NODE, NT_LONG, NT_NODE],
     [NODE_ZARRAY, NT_NULL, NT_NULL, NT_NULL],
     [NODE_HASH, NT_NODE, NT_NULL, NT_NULL],
     [NODE_YIELD, NT_NODE, NT_NULL, NT_NULL],
     [NODE_LVAR, NT_ID, NT_NULL, NT_NULL],
     [NODE_DVAR, NT_ID, NT_NULL, NT_NULL],
     [NODE_IVAR, NT_ID, NT_NULL, NT_NULL],
     [NODE_CONST, NT_ID, NT_NULL, NT_NULL],
     [NODE_CVAR, NT_ID, NT_NULL, NT_NULL],
     [NODE_GVAR, NT_NULL, NT_NULL, NT_ENTRY],
     [NODE_NTH_REF, NT_NULL, NT_LONG, NT_NULL],
     [NODE_BACK_REF, NT_NULL, NT_LONG, NT_LONG],
     [NODE_MATCH, NT_VALUE, NT_NULL, NT_NULL],
     [NODE_MATCH2, NT_NODE, NT_NODE, NT_NULL],
     [NODE_MATCH3, NT_NODE, NT_NODE, NT_NULL],
     [NODE_LIT, NT_VALUE, NT_NULL, NT_NULL],
     [NODE_STR, NT_VALUE, NT_NULL, NT_NULL],
     [NODE_XSTR, NT_VALUE, NT_NULL, NT_NULL],
     [NODE_DSTR, NT_VALUE, NT_NULL, NT_NODE],
     [NODE_DXSTR, NT_VALUE, NT_NULL, NT_NODE],
     [NODE_DREGX, NT_VALUE, NT_NULL, NT_NODE],
     [NODE_DREGX_ONCE, NT_VALUE, NT_NULL, NT_NODE],
     [NODE_DSYM, NT_VALUE, NT_NULL, NT_NODE],
     [NODE_EVSTR, NT_NULL, NT_NODE, NT_NULL],
     [NODE_ARGSCAT, NT_NODE, NT_NODE, NT_NULL],
     [NODE_ARGSPUSH, NT_NODE, NT_NODE, NT_NULL],
     [NODE_SPLAT, NT_NODE, NT_NULL, NT_NULL],
     [NODE_BLOCK_PASS, NT_NODE, NT_NODE, NT_NODE],
     [NODE_DEFN, NT_NULL, NT_ID, NT_NODE],
     [NODE_DEFS, NT_NODE, NT_ID, NT_NODE],
     [NODE_ALIAS, NT_NODE, NT_NODE, NT_NULL],
     [NODE_VALIAS, NT_ID, NT_ID, NT_NULL],
     [NODE_UNDEF, NT_NULL, NT_NODE, NT_NULL],
     [NODE_CLASS, NT_NODE, NT_NODE, NT_NODE],
     [NODE_MODULE, NT_NODE, NT_NODE, NT_NULL],
     [NODE_SCLASS, NT_NODE, NT_NODE, NT_NULL],
     [NODE_COLON2, NT_NODE, NT_ID, NT_NULL],
     [NODE_COLON3, NT_NULL, NT_ID, NT_NULL],
     [NODE_DOT2, NT_NODE, NT_NODE, NT_NULL],
     [NODE_DOT3, NT_NODE, NT_NODE, NT_NULL],
     [NODE_FLIP2, NT_NODE, NT_NODE, NT_NULL],
     [NODE_FLIP3, NT_NODE, NT_NODE, NT_NULL],
     [NODE_SELF, NT_NULL, NT_NULL, NT_NULL],
     [NODE_NIL, NT_NULL, NT_NULL, NT_NULL],
     [NODE_TRUE, NT_NULL, NT_NULL, NT_NULL],
     [NODE_FALSE, NT_NULL, NT_NULL, NT_NULL],
     [NODE_ERRINFO, NT_NULL, NT_NULL, NT_NULL],
     [NODE_DEFINED, NT_NODE, NT_NULL, NT_NULL],
     [NODE_POSTEXE, NT_NULL, NT_NODE, NT_NULL],
     [NODE_ATTRASGN, NT_NODE, NT_ID, NT_NODE],
     [NODE_PRELUDE, NT_NODE, NT_NODE, NT_NULL],
     [NODE_LAMBDA, NT_NULL, NT_NODE, NT_NULL],
     [NODE_OPT_ARG, NT_NULL, NT_NODE, NT_NODE],
     [NODE_POSTARG, NT_NODE, NT_NODE, NT_NULL],
     [NODE_ARGS, NT_NULL, NT_VALUE, NT_ARGS],
     [NODE_SCOPE, NT_IDTABLE, NT_NODE, NT_NODE],
     [NODE_ARGS_AUX, NT_LONG, NT_LONG, NT_NODE],
     [- 1, 0, 0, 0]]"

text \<open>
  The \<open>switch\<close> of \<open>check_nodes_child_info\<close> (the variant for Ruby 2): the slots that
  hold a node or a value according to Ruby's own \<open>node.c\<close>, or \<open>None\<close> where the
  \<open>default\<close> branch returns without a check.
\<close>

definition isval_switch :: "int \<Rightarrow> int list option" where
  "isval_switch type =
     (
if type \<in> set [NODE_IF, NODE_FOR, NODE_ITER, NODE_WHEN, NODE_MASGN, NODE_RESCUE,
          NODE_RESBODY, NODE_CLASS, NODE_BLOCK_PASS]
      then Some [1, 1, 1]
      else if type \<in> set [NODE_BLOCK, NODE_ARRAY, NODE_DSTR, NODE_DXSTR, NODE_DREGX,
          NODE_DREGX_ONCE, NODE_ENSURE, NODE_CALL, NODE_DEFS, NODE_OP_ASGN1]
      then Some [1, 0, 1]
      else if type \<in> set [NODE_SUPER, NODE_FCALL, NODE_DEFN, NODE_ARGS_AUX]
      then Some [0, 0, 1]
      else if type \<in> set [NODE_WHILE, NODE_UNTIL, NODE_AND, NODE_OR, NODE_CASE, NODE_SCLASS,
          NODE_DOT2, NODE_DOT3, NODE_FLIP2, NODE_FLIP3, NODE_MATCH2, NODE_MATCH3,
          NODE_OP_ASGN_OR, NODE_OP_ASGN_AND, NODE_MODULE, NODE_ALIAS, NODE_ARGSCAT]
      then Some [1, 1, 0]
      else if type \<in> set [NODE_GASGN, NODE_LASGN, NODE_DASGN, NODE_DASGN_CURR, NODE_IASGN,
          NODE_IASGN2, NODE_CVASGN, NODE_OPT_N, NODE_EVSTR, NODE_UNDEF, NODE_POSTEXE]
      then Some [0, 1, 0]
      else if type \<in> set [NODE_HASH, NODE_LIT, NODE_STR, NODE_XSTR, NODE_DEFINED, NODE_MATCH,
          NODE_RETURN, NODE_BREAK, NODE_NEXT, NODE_YIELD, NODE_COLON2, NODE_SPLAT,
          NODE_TO_ARY]
      then Some [1, 0, 0]
      else if type \<in> set [NODE_SCOPE, NODE_CDECL, NODE_OPT_ARG]
      then Some [0, 1, 1]
      else if type \<in> set [NODE_ARGS]
      then Some [0, 1, 0]
      else if type \<in> set [NODE_ZARRAY, NODE_ZSUPER, NODE_VCALL, NODE_GVAR, NODE_LVAR,
          NODE_DVAR, NODE_IVAR, NODE_CVAR, NODE_NTH_REF, NODE_BACK_REF, NODE_REDO,
          NODE_RETRY, NODE_SELF, NODE_NIL, NODE_TRUE, NODE_FALSE, NODE_ERRINFO,
          NODE_BLOCK_ARG]
      then Some [0, 0, 0]
      else None)"

text \<open>
  \<open>check_nodes_child_info\<close>. \<open>ruby_node_name\<close> is the interpreter's function; the
  table is a parameter so that the check can be stated for any table.
\<close>

definition isval_tbl_of :: "int list \<Rightarrow> int list" where
  "isval_tbl_of row =
     map (\<lambda>i. if row ! (i + 1) = NT_NODE \<or> row ! (i + 1) = NT_VALUE then 1 else 0) [0, 1, 2]"

definition check_nodes_child_info ::
  "int list list \<Rightarrow> (int \<Rightarrow> string) \<Rightarrow> nat \<Rightarrow> error + unit" where
  "check_nodes_child_info tbl ruby_node_name ipos =
     (let type = tbl ! ipos ! 0 in
      if ruby_node_name NODE_LAMBDA \<noteq> ''NODE_LAMBDA''
      then Inl (Raise ''Invalid NODE_LAMBDA position'')
      else
        (case isval_switch type of
           None \<Rightarrow> Inr ()
         | Some isval \<Rightarrow>
             (let isval_tbl = isval_tbl_of (tbl ! ipos) in
              if isval ! 0 - isval_tbl ! 0 \<noteq> 0 \<or> isval ! 1 - isval_tbl ! 1 \<noteq> 0
                 \<or> isval ! 2 - isval_tbl ! 2 \<noteq> 0
              then Inl (Raise ''Bad node entry in the initial table'')
              else Inr ())))"

text \<open>
  \<open>init_nodes_table\<close>: the loop of the checks, the loop that resets the \<open>3 * num_of_entries\<close>
  cells to \<open>NT_UNKNOWN\<close>, and the loop that copies the rows. Both loops over the
  table stop at the row of -1; the second argument of the loop functions is the part of
  the table not yet visited.
\<close>

fun check_loop ::
  "int list list \<Rightarrow> (int \<Rightarrow> string) \<Rightarrow> nat \<Rightarrow> int list list \<Rightarrow> error + unit" where
  "check_loop tbl ruby_node_name ipos [] = Inl (Undefined ''nodes_child_info read past its end'')"
| "check_loop tbl ruby_node_name ipos (row # rest) =
     (if row ! 0 = - 1 then Inr ()
      else (case check_nodes_child_info tbl ruby_node_name ipos of
              Inl e \<Rightarrow> Inl e
            | Inr u \<Rightarrow> check_loop tbl ruby_node_name (ipos + 1) rest))"

fun copy_loop :: "int list list \<Rightarrow> int list \<Rightarrow> error + int list" where
  "copy_loop [] ctbl = Inl (Undefined ''nodes_child_info read past its end'')"
| "copy_loop (row # rest) ctbl =
     (if row ! 0 = - 1 then Inr ctbl
      else
        (let offset = row ! 0 * 3 in
         if offset < 0 \<or> int (length ctbl) < offset + 3
         then Inl (Undefined ''nodes_ctbl written out of range'')
         else copy_loop rest
                (ctbl [nat offset := row ! 1, nat offset + 1 := row ! 2, nat offset + 2 := row ! 3])))"

definition init_nodes_table ::
  "int list list \<Rightarrow> (int \<Rightarrow> string) \<Rightarrow> nat \<Rightarrow> error + int list" where
  "init_nodes_table tbl ruby_node_name num_of_entries =
     (case check_loop tbl ruby_node_name 0 tbl of
        Inl e \<Rightarrow> Inl e
      | Inr u \<Rightarrow> copy_loop tbl (replicate (num_of_entries * 3) NT_UNKNOWN))"

definition NODES_CTBL_SIZE :: nat where
  "NODES_CTBL_SIZE = 256"

text \<open>The rows a loop visits: those before the first row of -1.\<close>

definition entries :: "int list list \<Rightarrow> int list list" where
  "entries tbl = takeWhile (\<lambda>row. row ! 0 \<noteq> - 1) tbl"

text \<open>
  \<open>Init_nodemarshal\<close> builds both tables before it defines the class and its methods;
  a raise in either leaves the extension without them. The result is the pair of tables
  the methods work with.
\<close>

definition Init_nodemarshal ::
  "int list list \<Rightarrow> (int \<Rightarrow> string) \<Rightarrow> error + int list \<times> int list" where
  "Init_nodemarshal tbl ruby_node_name =
     (case init_nodes_table tbl ruby_node_name NODES_CTBL_SIZE of
        Inl e \<Rightarrow> Inl e
      | Inr nodes_ctbl \<Rightarrow>
          (case base85r_init_tables of
             Inl e \<Rightarrow> Inl e
           | Inr c2v \<Rightarrow> Inr (nodes_ctbl, c2v)))"

definition returns :: "error + 'a \<Rightarrow> bool" where
  "returns r = (case r of Inl e \<Rightarrow> False | Inr x \<Rightarrow> True)"

text \<open>
  A stand-in for Ruby's \<open>ruby_node_name\<close> in closed statements: the extension only asks
  it for the name of \<open>NODE_LAMBDA\<close>.
\<close>

definition node_name_22 :: "int \<Rightarrow> string" where
  "node_name_22 t = (if t = NODE_LAMBDA then ''NODE_LAMBDA'' else ''NODE_OTHER'')"


section \<open>The node dump (nodedump.c)\<close>

subsection \<open>What the interpreter provides (ruby.h of Ruby 2.2, 64 bit)\<close>

text \<open>
  The special constants and the type tag of a node are those of \<open>ruby.h\<close> with flonums.
  A node is the \<open>struct RNode\<close> of \<open>node220.h\<close>; the three unions \<open>u1\<close>, \<open>u2\<close>, \<open>u3\<close>
  are read as the 64-bit word they hold.
\<close>

type_synonym ID = "64 word"

definition Qfalse :: VALUE where "Qfalse = 0"

definition Qtrue :: VALUE where "Qtrue = 20"

definition Qnil :: VALUE where "Qnil = 8"

definition Qundef :: VALUE where "Qundef = 52"

definition FIXNUM_FLAG :: VALUE where "FIXNUM_FLAG = 1"

definition FLONUM_MASK :: VALUE where "FLONUM_MASK = 3"

definition FLONUM_FLAG :: VALUE where "FLONUM_FLAG = 2"

definition T_NODE :: int where "T_NODE = 28"

record NODE =
  flags :: VALUE
  nd_reserved :: VALUE
  u1 :: VALUE
  u2 :: VALUE
  u3 :: VALUE

definition NODE_TYPESHIFT :: nat where "NODE_TYPESHIFT = 8"

definition NODE_TYPEMASK :: VALUE where "NODE_TYPEMASK = push_bit NODE_TYPESHIFT 127"

definition nd_type :: "NODE \<Rightarrow> int" where
  "nd_type n = uint (drop_bit NODE_TYPESHIFT (flags n AND NODE_TYPEMASK))"

text \<open>
  The objects of a Ruby program that the tables of the dump hold: strings, fixnums,
  arrays, and a reference to any other object (a literal), kept as its \<open>VALUE\<close>.
  \<open>INT2FIX\<close> keeps the low 63 bits of its argument, as the shift of the macro does.
\<close>

datatype rval = Str string | Fixnum int | Ary "rval list" | Ref VALUE

definition INT2FIX :: "VALUE \<Rightarrow> rval" where
  "INT2FIX i = Fixnum (sint (push_bit 1 i) div 2)"

text \<open>
  The memory the encoder reads nodes from and the decoder writes nodes to, and the
  function \<open>rb_type\<close> of the interpreter behind the macro \<open>TYPE\<close>, which is a parameter
  of the functions that use it. \<open>RESET_GC_FLAGS\<close> is the macro of that name: defined for
  Ruby 1.9, not defined for Ruby 2.2.
\<close>

type_synonym memory = "VALUE \<Rightarrow> NODE option"

record interp =
  rb_type :: "VALUE \<Rightarrow> int"
  RESET_GC_FLAGS :: bool

subsection \<open>Generic utilities\<close>

definition is_value_in_heap :: "VALUE \<Rightarrow> bool" where
  "is_value_in_heap val =
     (if val = Qfalse \<or> val = Qtrue \<or> val = Qnil \<or> val = Qundef
         \<or> val AND FIXNUM_FLAG \<noteq> 0 \<or> val AND FLONUM_MASK = FLONUM_FLAG
      then False else True)"

text \<open>
  \<open>value_to_str\<close> prints the value in hexadecimal into \<open>char str[16]\<close>: sixteen digits
  and the final zero byte do not fit. \<open>str_to_value\<close> reads a hexadecimal number with
  \<open>sscanf\<close>; the encoder calls it on the keys of its node table only, which
  \<open>value_to_str\<close> wrote, and it is modelled on such strings.
\<close>

definition hex_digits :: string where
  "hex_digits = ''0123456789abcdef''"

definition nibbles :: "VALUE \<Rightarrow> nat list" where
  "nibbles val = map (\<lambda>i. unat (drop_bit (4 * i) val AND 15)) [15, 14, 13, 12, 11, 10, 9, 8, 7, 6, 5, 4, 3, 2, 1, 0]"

definition value_to_str :: "VALUE \<Rightarrow> error + rval" where
  "value_to_str val =
     (if 1152921504606846976 \<le> val then Inl (Undefined ''value_to_str: write past str[16]'')
      else
        (case dropWhile (\<lambda>d. d = 0) (nibbles val) of
           [] \<Rightarrow> Inr (Str ''0'')
         | d # ds \<Rightarrow> Inr (Str (map (\<lambda>d. hex_digits ! d) (d # ds)))))"

definition hex_val :: "char \<Rightarrow> nat" where
  "hex_val c = length (takeWhile (\<lambda>x. x \<noteq> c) hex_digits)"

definition str_to_value :: "rval \<Rightarrow> error + VALUE" where
  "str_to_value str =
     (case str of
        Str s \<Rightarrow>
          (if s \<noteq> [] \<and> length s \<le> 16 \<and> list_all (\<lambda>c. c \<in> set hex_digits) s
           then Inr (of_nat (foldl (\<lambda>a c. 16 * a + hex_val c) 0 s))
           else Inl (Undefined ''str_to_value: not a string of value_to_str''))
      | _ \<Rightarrow> Inl (Undefined ''str_to_value: not a string''))"

text \<open>
  \<open>value_to_bin\<close> writes the bytes of \<open>val\<close> from the most significant one, leaving out
  the leading zero bytes, and returns their number: the result here is the bytes written,
  \<open>len\<close> is their number. The loop runs over \<open>i = sizeof(VALUE) - 1, ..., 0\<close>.
\<close>

fun value_to_bin_loop :: "nat list \<Rightarrow> VALUE \<Rightarrow> byte list \<Rightarrow> byte list" where
  "value_to_bin_loop [] val buf = buf"
| "value_to_bin_loop (i # rest) val buf =
     (let byte = (ucast (drop_bit (i * 8) val AND 255) :: byte)
      in value_to_bin_loop rest val (if 0 < length buf \<or> byte \<noteq> 0 then buf @ [byte] else buf))"

definition value_to_bin :: "VALUE \<Rightarrow> byte list" where
  "value_to_bin val = value_to_bin_loop [7, 6, 5, 4, 3, 2, 1, 0] val []"

text \<open>
  \<open>bin_to_value\<close> reads \<open>len\<close> bytes, here the list \<open>buf\<close>, the first one shifted by
  \<open>(len - 1) * 8\<close> bits: the counter \<open>i\<close> is the number of bytes that follow the byte
  read. With more than eight bytes the first shift is by 64 bits or more.
\<close>

fun bin_to_value_loop :: "byte list \<Rightarrow> VALUE \<Rightarrow> VALUE" where
  "bin_to_value_loop [] val = val"
| "bin_to_value_loop (b # buf) val =
     bin_to_value_loop buf (val OR push_bit (length buf * 8) (ucast b))"

definition bin_to_value :: "byte list \<Rightarrow> error + VALUE" where
  "bin_to_value buf =
     (if 8 < length buf then Inl (Undefined ''bin_to_value: shift by 64 bits or more'')
      else Inr (bin_to_value_loop buf 0))"

text \<open>The eight bytes of a value, the most significant one first.\<close>

definition byte_of :: "VALUE \<Rightarrow> nat \<Rightarrow> byte" where
  "byte_of val i = ucast (drop_bit (i * 8) val AND 255)"

definition bytes8 :: "VALUE \<Rightarrow> byte list" where
  "bytes8 val = map (byte_of val) [7, 6, 5, 4, 3, 2, 1, 0]"

subsection \<open>The tables of the encoder\<close>

record NODEInfo =
  syms :: "(rval, rval) LeafTableInfo"
  lits :: "(rval, rval) LeafTableInfo"
  idtabs :: "(rval, rval) LeafTableInfo"
  args :: "(rval, rval) LeafTableInfo"
  gentries :: "(rval, rval) LeafTableInfo"
  nodes :: "(rval, rval) LeafTableInfo"

definition NODEInfo_init :: NODEInfo where
  "NODEInfo_init =
     \<lparr>syms = LeafTableInfo_init, lits = LeafTableInfo_init, idtabs = LeafTableInfo_init,
      args = LeafTableInfo_init, gentries = LeafTableInfo_init, nodes = LeafTableInfo_init\<rparr>"

definition NODEInfo_getTableByID :: "NODEInfo \<Rightarrow> int \<Rightarrow> (rval, rval) LeafTableInfo option" where
  "NODEInfo_getTableByID info ident =
     (if ident = NT_ID then Some (syms info)
      else if ident = NT_VALUE then Some (lits info)
      else if ident = NT_IDTABLE then Some (idtabs info)
      else if ident = NT_ARGS then Some (args info)
      else if ident = NT_ENTRY then Some (gentries info)
      else if ident = NT_NODE then Some (nodes info)
      else None)"

subsection \<open>Encoding the nodes\<close>

text \<open>
  \<open>DUMP_RAW_VALUE(vl_ans, vl)\<close> writes \<open>vl\<close> with \<open>value_to_bin\<close> and gives the location
  code or'ed with the number of bytes written, shifted left by four bits. The result of
  \<open>dump_node_value\<close> is that \<open>int\<close> and the bytes written at \<open>ptr\<close>. The ordinal a table
  returns is an \<open>int\<close>, converted to \<open>VALUE\<close>. The messages of \<open>rb_raise\<close> are their format
  strings (the first line of it).
\<close>

definition DUMP_RAW_VALUE :: "int \<Rightarrow> VALUE \<Rightarrow> int \<times> byte list" where
  "DUMP_RAW_VALUE vl_ans vl =
     (let buf = value_to_bin vl in (vl_ans OR push_bit 4 (int (length buf)), buf))"

definition VL_codes :: "int set" where
  "VL_codes = {VL_RAW, VL_NODE, VL_ID, VL_GVAR, VL_IDTABLE, VL_ARGS, VL_LIT}"

definition dump_table_value ::
  "(rval, rval) LeafTableInfo \<Rightarrow> rval \<Rightarrow> string \<Rightarrow> int \<Rightarrow> error + int \<times> byte list" where
  "dump_table_value lti key msg vl =
     (let ident = (word_of_int (LeafTableInfo_keyToID lti key) :: VALUE)
      in if ident = - 1 then Inl (Raise msg) else Inr (DUMP_RAW_VALUE vl ident))"

definition dump_node_value ::
  "interp \<Rightarrow> NODEInfo \<Rightarrow> NODE \<Rightarrow> int \<Rightarrow> VALUE \<Rightarrow> int \<Rightarrow> error + int \<times> byte list" where
  "dump_node_value rb info node type val child_id =
     (if type = NT_NULL \<or> type = NT_LONG then Inr (DUMP_RAW_VALUE VL_RAW val)
      else if type = NT_NODE then
        (if val = 0 then Inr (DUMP_RAW_VALUE VL_RAW val)
         else if nd_type node = NODE_ATTRASGN \<and> val = 1 \<and> child_id = 1
         then Inr (DUMP_RAW_VALUE VL_RAW val)
         else if rb_type rb val \<noteq> T_NODE
         then Inl (Raise ''dump_node_value, parent node %s: child node %d (ADR 0x%s): is not a node'')
         else
           (case value_to_str val of
              Inl e \<Rightarrow> Inl e
            | Inr key \<Rightarrow>
                dump_table_value (nodes info) key
                  ''dump_node_value, parent node %s: child node %d (ADR 0x%s) not found'' VL_NODE))
      else if type = NT_VALUE then
        (if \<not> is_value_in_heap val then Inr (DUMP_RAW_VALUE VL_RAW val)
         else
           (case value_to_str val of
              Inl e \<Rightarrow> Inl e
            | Inr key \<Rightarrow> dump_table_value (lits info) key ''Cannot find literal'' VL_LIT))
      else if type = NT_ID then
        dump_table_value (syms info) (INT2FIX val)
          ''Cannot find symbol ID %d (%s) (parent node %s, line %d)'' VL_ID
      else if type = NT_ENTRY \<or> type = NT_ARGS \<or> type = NT_IDTABLE then
        (case value_to_str val of
           Inl e \<Rightarrow> Inl e
         | Inr key \<Rightarrow>
             (case NODEInfo_getTableByID info type of
                None \<Rightarrow> Inl (Undefined ''dump_node_value: no table'')
              | Some lti \<Rightarrow>
                  dump_table_value lti key ''Cannot find some entry''
                    (if type = NT_ENTRY then VL_GVAR
                     else if type = NT_IDTABLE then VL_IDTABLE else VL_ARGS)))
      else Inl (Raise ''Unknown child node type %d''))"

text \<open>
  The slot types \<open>ut\<close> under which \<open>dump_nodes\<close> dumps the three slots of a node: the
  row of \<open>nodes_ctbl\<close>, changed for \<open>NODE_OP_ASGN2\<close> and \<open>NODE_ARGS_AUX\<close>.
\<close>

definition slot_types :: "int list \<Rightarrow> NODEInfo \<Rightarrow> NODE \<Rightarrow> int list" where
  "slot_types nodes_ctbl info node =
     (let nt = nd_type node;
          ut = [nodes_ctbl ! nat (nt * 3), nodes_ctbl ! nat (nt * 3 + 1),
                nodes_ctbl ! nat (nt * 3 + 2)];
          ut = (if nt = NODE_OP_ASGN2
                   \<and> LeafTableInfo_keyToID (syms info) (INT2FIX (u1 node)) \<noteq> - 1
                then [NT_ID, NT_ID, NT_ID] else ut)
      in if nt = NODE_ARGS_AUX
         then
           (let ut = [NT_ID, NT_LONG, NT_NODE];
                ut = (if LeafTableInfo_keyToID (syms info) (INT2FIX (u2 node)) \<noteq> - 1
                      then ut [1 := NT_ID] else ut [1 := NT_LONG]);
                ut = (if u1 node = 0 then ut [0 := NT_NULL] else ut);
                ut = (if u2 node = 0 then ut [1 := NT_NULL] else ut)
            in if u3 node = 0 then ut [2 := NT_NULL] else ut)
         else ut)"

text \<open>
  The body of the loop of \<open>dump_nodes\<close>: the record of one node. Four bytes are kept for
  \<open>rtypes\<close>, then come the bytes of \<open>flags >> 5\<close> and of the three slots; after each slot
  \<open>ptr\<close> moves by the upper half of the byte stored in \<open>rtypes\<close>, which is the number of
  bytes \<open>value_to_bin\<close> wrote there (at most 8). \<open>nodes_ctbl\<close> has \<open>3 * 256\<close> entries
  and \<open>nd_type\<close> is below 128.
\<close>

definition dump_node :: "interp \<Rightarrow> int list \<Rightarrow> NODEInfo \<Rightarrow> NODE \<Rightarrow> error + byte list" where
  "dump_node rb nodes_ctbl info node =
     (if length nodes_ctbl < 384 then Inl (Undefined ''nodes_ctbl read past its end'')
      else
        (let flags_buf = value_to_bin (drop_bit 5 (flags node));
             ut = slot_types nodes_ctbl info node
         in case dump_node_value rb info node (ut ! 0) (u1 node) 1 of
              Inl e \<Rightarrow> Inl e
            | Inr (r0, b0) \<Rightarrow>
                (case dump_node_value rb info node (ut ! 1) (u2 node) 2 of
                   Inl e \<Rightarrow> Inl e
                 | Inr (r1, b1) \<Rightarrow>
                     (case dump_node_value rb info node (ut ! 2) (u3 node) 3 of
                        Inl e \<Rightarrow> Inl e
                      | Inr (r2, b2) \<Rightarrow>
                          Inr ([word_of_int r0, word_of_int r1, word_of_int r2,
                                of_nat (length flags_buf)]
                               @ flags_buf @ b0 @ b1 @ b2)))))"

text \<open>
  \<open>dump_nodes\<close>: the records of the nodes of the node table, in the order of its keys,
  each key read back to the address of its node. The string is cut one byte after the
  last record; no record writes that byte of the fresh buffer, it is the parameter
  \<open>spare\<close>. The counter \<open>i\<close> and the final length are \<open>int\<close>.
\<close>

fun dump_nodes_loop ::
  "interp \<Rightarrow> memory \<Rightarrow> int list \<Rightarrow> NODEInfo \<Rightarrow> rval list \<Rightarrow> error + byte list" where
  "dump_nodes_loop rb mem nodes_ctbl info [] = Inr []"
| "dump_nodes_loop rb mem nodes_ctbl info (key # rest) =
     (case str_to_value key of
        Inl e \<Rightarrow> Inl e
      | Inr adr \<Rightarrow>
          (case mem adr of
             None \<Rightarrow> Inl (Undefined ''dump_nodes: no node at the address'')
           | Some node \<Rightarrow>
               (case dump_node rb nodes_ctbl info node of
                  Inl e \<Rightarrow> Inl e
                | Inr rec \<Rightarrow>
                    (case dump_nodes_loop rb mem nodes_ctbl info rest of
                       Inl e \<Rightarrow> Inl e
                     | Inr recs \<Rightarrow> Inr (rec @ recs)))))"

definition dump_nodes ::
  "interp \<Rightarrow> memory \<Rightarrow> int list \<Rightarrow> NODEInfo \<Rightarrow> byte \<Rightarrow> error + byte list" where
  "dump_nodes rb mem nodes_ctbl info spare =
     (let nodes_ary = map fst (vals (nodes info))
      in if 2147483648 \<le> length nodes_ary then Inl (Undefined ''dump_nodes: i overflows'')
         else
           (case dump_nodes_loop rb mem nodes_ctbl info nodes_ary of
              Inl e \<Rightarrow> Inl e
            | Inr bin \<Rightarrow>
                if 2147483647 \<le> length bin then Inl (Undefined ''dump_nodes: length overflows'')
                else Inr (bin @ [spare])))"

subsection \<open>Decoding the nodes\<close>

text \<open>
  The tables of the decoder. Each length is stored in an \<open>int\<close> beside the table.
  The pointers of \<open>idtbls_adr\<close>, \<open>gvars_adr\<close>, \<open>nodes_adr\<close> and \<open>args_adr\<close> are the words
  a slot receives.
\<close>

record NODEObjAddresses =
  syms_adr :: "ID list"
  syms_len :: int
  lits_adr :: "VALUE list"
  lits_len :: int
  idtbls_adr :: "VALUE list"
  idtbls_len :: int
  gvars_adr :: "VALUE list"
  gvars_len :: int
  nodes_adr :: "VALUE list"
  nodes_len :: int
  args_adr :: "VALUE list"
  args_len :: int

text \<open>
  \<open>fetch str p n\<close> reads \<open>n\<close> bytes of the string from offset \<open>p\<close>, as \<open>*bin++\<close> does. A
  Ruby string is followed by one zero byte; reading behind it is not defined.
  \<open>read_value\<close> is \<open>bin_to_value(bin, len); bin += len\<close>.
\<close>

definition fetch :: "byte list \<Rightarrow> nat \<Rightarrow> nat \<Rightarrow> error + byte list" where
  "fetch str p n =
     (if p + n \<le> length str + 1 then Inr (take n (drop p (str @ [0])))
      else Inl (Undefined ''read past the end of the nodes string''))"

definition read_value :: "byte list \<Rightarrow> nat \<Rightarrow> nat \<Rightarrow> error + VALUE \<times> nat" where
  "read_value str p len =
     (if 8 < len then Inl (Undefined ''bin_to_value: shift by 64 bits or more'')
      else
        (case fetch str p len of
           Inl e \<Rightarrow> Inl e
         | Inr buf \<Rightarrow>
             (case bin_to_value buf of
                Inl e \<Rightarrow> Inl e
              | Inr v \<Rightarrow> Inr (v, p + len))))"

text \<open>
  The first half of the loop body of \<open>load_nodes_from_str\<close>: the four bytes of \<open>rtypes\<close>,
  the flags, the three values, and the check of the position reached. The result is the
  three location codes \<open>rtypes[j] & 0x0F\<close>, the flags, the values, and the new position.
\<close>

definition val_len :: "byte \<Rightarrow> nat" where
  "val_len r = unat (drop_bit 4 (r AND 240))"

definition read_node ::
  "byte list \<Rightarrow> nat \<Rightarrow> error + int list \<times> VALUE \<times> VALUE list \<times> nat" where
  "read_node str p =
     (case fetch str p 4 of
        Inl e \<Rightarrow> Inl e
      | Inr rtypes \<Rightarrow>
          (case read_value str (p + 4) (unat (rtypes ! 3)) of
             Inl e \<Rightarrow> Inl e
           | Inr (fl, p0) \<Rightarrow>
               (case read_value str p0 (val_len (rtypes ! 0)) of
                  Inl e \<Rightarrow> Inl e
                | Inr (v0, p1) \<Rightarrow>
                    (case read_value str p1 (val_len (rtypes ! 1)) of
                       Inl e \<Rightarrow> Inl e
                     | Inr (v1, p2) \<Rightarrow>
                         (case read_value str p2 (val_len (rtypes ! 2)) of
                            Inl e \<Rightarrow> Inl e
                          | Inr (v2, p3) \<Rightarrow>
                              if length str < p3
                              then Inl (Raise ''Nodes binary dump is too short'')
                              else Inr (map (\<lambda>r. uint (r AND 15)) (take 3 rtypes),
                                        fl, [v0, v1, v2], p3))))))"

text \<open>
  The switch that resolves one slot. The ordinal \<open>u[j]\<close> is compared with the length of
  the table converted to \<open>unsigned int\<close>; the table is then read at \<open>u[j]\<close>.
\<close>

definition table_entry :: "VALUE list \<Rightarrow> int \<Rightarrow> string \<Rightarrow> VALUE \<Rightarrow> error + VALUE" where
  "table_entry adr len msg u =
     (if len mod 4294967296 \<le> uint u then Inl (Raise msg)
      else if unat u < length adr then Inr (adr ! unat u)
      else Inl (Undefined ''load_nodes_from_str: read outside the table''))"

definition resolve_slot :: "interp \<Rightarrow> NODEObjAddresses \<Rightarrow> int \<Rightarrow> VALUE \<Rightarrow> error + VALUE" where
  "resolve_slot rb relocs rtype u =
     (if rtype = VL_RAW then Inr u
      else if rtype = VL_NODE then
        (case table_entry (nodes_adr relocs) (nodes_len relocs)
                ''Cannot resolve VL_NODE entry %d'' u of
           Inl e \<Rightarrow> Inl e
         | Inr v \<Rightarrow>
             if rb_type rb v \<noteq> T_NODE
             then Inl (Raise ''load_nodes_from_str: nodes memory corrupted'')
             else Inr v)
      else if rtype = VL_ID then
        table_entry (syms_adr relocs) (syms_len relocs) ''Cannot resolve VL_ID entry %d'' u
      else if rtype = VL_GVAR then
        table_entry (gvars_adr relocs) (gvars_len relocs) ''Cannot resolve VL_GVAR entry %d'' u
      else if rtype = VL_IDTABLE then
        table_entry (idtbls_adr relocs) (idtbls_len relocs)
          ''Cannot resolve VL_IDTABLE entry %d'' u
      else if rtype = VL_ARGS then
        table_entry (args_adr relocs) (args_len relocs) ''Cannot resolve VL_ARGS entry %d'' u
      else if rtype = VL_LIT then
        table_entry (lits_adr relocs) (lits_len relocs) ''Cannot resolve VL_LIT entry %d'' u
      else Inl (Raise ''Unknown RTYPE %d''))"

text \<open>
  The loop body of \<open>load_nodes_from_str\<close>: the node read at position \<open>p\<close>, its slots
  resolved in the order 1, 2, 3, and the position behind it.
\<close>

definition load_node ::
  "interp \<Rightarrow> NODEObjAddresses \<Rightarrow> byte list \<Rightarrow> nat \<Rightarrow> error + NODE \<times> nat" where
  "load_node rb relocs str p =
     (case read_node str p of
        Inl e \<Rightarrow> Inl e
      | Inr (rtypes, fl, u, p') \<Rightarrow>
          (case resolve_slot rb relocs (rtypes ! 0) (u ! 0) of
             Inl e \<Rightarrow> Inl e
           | Inr w0 \<Rightarrow>
               (case resolve_slot rb relocs (rtypes ! 1) (u ! 1) of
                  Inl e \<Rightarrow> Inl e
                | Inr w1 \<Rightarrow>
                    (case resolve_slot rb relocs (rtypes ! 2) (u ! 2) of
                       Inl e \<Rightarrow> Inl e
                     | Inr w2 \<Rightarrow>
                         (let fl = (if RESET_GC_FLAGS rb then fl AND NOT 3 else fl)
                          in Inr (\<lparr>flags = push_bit 5 fl OR word_of_int T_NODE,
                                   nd_reserved = 0, u1 = w0, u2 = w1, u3 = w2\<rparr>, p'))))))"

text \<open>
  \<open>load_nodes_from_str\<close>: the loop over \<open>i < relocs->nodes_len\<close>. The node read is
  written to the placeholder \<open>relocs->nodes_adr[i]\<close>.
\<close>

fun load_loop ::
  "interp \<Rightarrow> NODEObjAddresses \<Rightarrow> byte list \<Rightarrow> nat list \<Rightarrow> nat \<Rightarrow> memory \<Rightarrow> error + memory" where
  "load_loop rb relocs str [] p mem = Inr mem"
| "load_loop rb relocs str (i # rest) p mem =
     (case load_node rb relocs str p of
        Inl e \<Rightarrow> Inl e
      | Inr (node, p') \<Rightarrow>
          if length (nodes_adr relocs) \<le> i
          then Inl (Undefined ''load_nodes_from_str: read outside nodes_adr'')
          else
            (case mem (nodes_adr relocs ! i) of
               None \<Rightarrow> Inl (Undefined ''load_nodes_from_str: write to no node'')
             | Some placeholder \<Rightarrow>
                 load_loop rb relocs str rest p' (mem (nodes_adr relocs ! i \<mapsto> node))))"

definition load_nodes_from_str ::
  "interp \<Rightarrow> byte list \<Rightarrow> NODEObjAddresses \<Rightarrow> memory \<Rightarrow> error + memory" where
  "load_nodes_from_str rb str relocs mem =
     load_loop rb relocs str [0..<nat (nodes_len relocs)] 0 mem"

text \<open>
  The table a location code names, with the length stored beside it, and the state of
  the tables in which every stored length is the length of its table.
\<close>

definition slot_table :: "NODEObjAddresses \<Rightarrow> int \<Rightarrow> (VALUE list \<times> int) option" where
  "slot_table relocs rtype =
     (if rtype = VL_NODE then Some (nodes_adr relocs, nodes_len relocs)
      else if rtype = VL_ID then Some (syms_adr relocs, syms_len relocs)
      else if rtype = VL_GVAR then Some (gvars_adr relocs, gvars_len relocs)
      else if rtype = VL_IDTABLE then Some (idtbls_adr relocs, idtbls_len relocs)
      else if rtype = VL_ARGS then Some (args_adr relocs, args_len relocs)
      else if rtype = VL_LIT then Some (lits_adr relocs, lits_len relocs)
      else None)"

definition relocs_ok :: "NODEObjAddresses \<Rightarrow> bool" where
  "relocs_ok relocs \<longleftrightarrow>
     syms_len relocs = int (length (syms_adr relocs))
     \<and> lits_len relocs = int (length (lits_adr relocs))
     \<and> idtbls_len relocs = int (length (idtbls_adr relocs))
     \<and> gvars_len relocs = int (length (gvars_adr relocs))
     \<and> nodes_len relocs = int (length (nodes_adr relocs))
     \<and> args_len relocs = int (length (args_adr relocs))"


section \<open>Properties of the leaf tables\<close>

lemma int32_id: "- 2147483648 \<le> x \<Longrightarrow> x < 2147483648 \<Longrightarrow> int32 x = x"
  by (simp add: int32_def)

lemma int32_uint_of_nat: "int32 (uint (of_nat n :: VALUE)) = int32 (int n)"
proof -
  have "uint (of_nat n :: VALUE) = int (unat (of_nat n :: VALUE))" by (simp only: uint_nat)
  also have "\<dots> = int (n mod 2 ^ 64)" by (simp only: unat_of_nat) simp
  also have "\<dots> = int n mod 2 ^ 64" by (simp add: zmod_int)
  finally have "uint (of_nat n :: VALUE) = int n mod 2 ^ 64" .
  moreover have "(int n mod 2 ^ 64 + 2 ^ 31) mod 2 ^ 32 = (int n + 2 ^ 31) mod (2 ^ 32 :: int)"
  proof -
    have "(2 ^ 32 :: int) dvd 2 ^ 64" by (simp add: le_imp_power_dvd)
    then have "int n mod 2 ^ 64 mod 2 ^ 32 = int n mod (2 ^ 32 :: int)"
      by (rule mod_mod_cancel)
    then show ?thesis by (metis mod_add_left_eq)
  qed
  ultimately show ?thesis by (simp add: int32_def)
qed

lemma position_append: "k \<in> set ks \<Longrightarrow> position (ks @ xs) k = position ks k"
  by (simp add: position_def)

lemma position_fresh: "k \<notin> set ks \<Longrightarrow> position (ks @ [k]) k = int (length ks)"
  unfolding position_def by (induction ks) auto

lemma position_less: "k \<in> set ks \<Longrightarrow> position ks k < int (length ks)"
  unfolding position_def by (induction ks) auto

lemma position_nonneg: "0 \<le> position ks k"
  by (simp add: position_def)

lemma first_seen_prefix: "\<exists>zs. first_seen acc ks = acc @ zs"
  by (induction ks arbitrary: acc) (auto, metis append.assoc)

lemma position_first_seen:
  "k \<in> set acc \<Longrightarrow> position (first_seen acc ks) k = position acc k"
  using first_seen_prefix [of acc ks] by (auto simp: position_append)

lemma set_first_seen: "set (first_seen acc ks) = set acc \<union> set ks"
  by (induction ks arbitrary: acc) auto

lemma lti_inv_init: "lti_inv LeafTableInfo_init"
  by (simp add: lti_inv_def LeafTableInfo_init_def)

lemma map_of_ids:
  assumes "map snd xs = map f [n..<n + length xs]" "distinct (map fst xs)" "k \<in> fst ` set xs"
  shows "map_of xs k = Some (f (n + length (takeWhile (\<lambda>x. x \<noteq> k) (map fst xs))))"
  using assms
proof (induction xs arbitrary: n)
  case Nil
  then show ?case by simp
next
  case (Cons x xs)
  obtain a b where x: "x = (a, b)" by (cases x)
  have sh: "[n..<n + Suc (length xs)] = n # [Suc n..<Suc n + length xs]"
    by (simp add: upt_rec)
  from Cons.prems(1) have b: "b = f n" and rest: "map snd xs = map f [Suc n..<Suc n + length xs]"
    using sh by (simp_all add: x del: upt_Suc)
  show ?case
  proof (cases "k = a")
    case True
    then show ?thesis by (simp add: x b)
  next
    case False
    with Cons.prems have "k \<in> fst ` set xs" "distinct (map fst xs)" by (auto simp: x)
    from Cons.IH [OF rest this(2) this(1)] False show ?thesis
      by (simp add: x)
  qed
qed

lemma lti_lookup:
  assumes "lti_inv t" "k \<in> fst ` set (ids t)"
  shows "rb_hash_aref (ids t) k = Some (int32 (position (map fst (ids t)) k))"
proof -
  from assms(1) have "map snd (ids t) = map (\<lambda>i. int32 (int i)) [0..<0 + length (ids t)]"
    by (simp add: lti_inv_def)
  from map_of_ids [OF this _ assms(2)] assms(1) show ?thesis
    by (simp add: rb_hash_aref_def lti_inv_def position_def)
qed

lemma lti_lookup_none: "k \<notin> fst ` set (ids t) \<Longrightarrow> rb_hash_aref (ids t) k = None"
  by (simp add: rb_hash_aref_def map_of_eq_None_iff)

lemma update_fresh: "k \<notin> fst ` set xs \<Longrightarrow> AList.update k v xs = xs @ [(k, v)]"
  by (induction xs) auto

lemma addEntry_step:
  assumes "lti_inv t" "LeafTableInfo_addEntry t k v = (t', i)"
  shows "lti_inv t' \<and> map fst (ids t') = first_seen (map fst (ids t)) [k]
         \<and> i = int32 (position (map fst (ids t')) k)"
proof (cases "k \<in> fst ` set (ids t)")
  case True
  with assms lti_lookup [OF assms(1) True] show ?thesis
    by (auto simp: LeafTableInfo_addEntry_def)
next
  case False
  from assms(1) have p: "pos t = of_nat (length (ids t))" by (simp add: lti_inv_def)
  from False assms(2) have t': "t' = t \<lparr> pos := pos t + 1,
        vals := rb_hash_aset (vals t) k v, ids := ids t @ [(k, int32 (int (length (ids t))))] \<rparr>"
    and i: "i = int32 (int (length (ids t)))"
    by (auto simp: LeafTableInfo_addEntry_def lti_lookup_none rb_hash_aset_def update_fresh Let_def
        p int32_uint_of_nat)
  have "lti_inv t'" using assms(1) False by (auto simp: t' lti_inv_def)
  moreover have "map fst (ids t') = first_seen (map fst (ids t)) [k]"
    using False by (auto simp: t')
  moreover have "i = int32 (position (map fst (ids t')) k)"
    using False by (simp add: t' i position_fresh [of k "map fst (ids t)", simplified])
  ultimately show ?thesis by blast
qed

lemma addEntries_run:
  assumes "lti_inv t" "addEntries t kvs = (t', ords)"
  shows "lti_inv t' \<and> map fst (ids t') = first_seen (map fst (ids t)) (map fst kvs)
         \<and> ords = map (\<lambda>(k, v). int32 (position (map fst (ids t')) k)) kvs"
  using assms
proof (induction kvs arbitrary: t t' ords)
  case Nil
  then show ?case by simp
next
  case (Cons kv kvs)
  obtain k v where kv: "kv = (k, v)" by (cases kv)
  obtain t1 i where s1: "LeafTableInfo_addEntry t k v = (t1, i)" by fastforce
  obtain t2 os where s2: "addEntries t1 kvs = (t2, os)" by fastforce
  from Cons.prems(2) have t': "t' = t2" and ords: "ords = i # os"
    by (simp_all add: kv s1 s2)
  note st = addEntry_step [OF Cons.prems(1) s1]
  note ih = Cons.IH [OF conjunct1 [OF st] s2]
  have k_in: "k \<in> set (map fst (ids t1))"
    using st by (auto simp: set_first_seen)
  have "i = int32 (position (map fst (ids t2)) k)"
    using st ih position_first_seen [OF k_in, of "map fst kvs"] by simp
  moreover have "map fst (ids t2) = first_seen (map fst (ids t)) (map fst (kv # kvs))"
    using st ih by (simp add: kv)
  ultimately show ?case using ih by (simp add: t' ords kv)
qed

text \<open>The ordinal of a key, once stored, is never overwritten.\<close>

lemma addEntry_keeps:
  assumes "rb_hash_aref (ids t) k = Some i"
  shows "rb_hash_aref (ids (fst (LeafTableInfo_addEntry t k' v))) k = Some i"
proof (cases "rb_hash_aref (ids t) k'")
  case None
  with assms have "k \<noteq> k'" by auto
  with assms None show ?thesis
    by (simp add: LeafTableInfo_addEntry_def Let_def rb_hash_aref_def rb_hash_aset_def update_conv')
next
  case (Some j)
  with assms show ?thesis by (simp add: LeafTableInfo_addEntry_def)
qed

lemma addEntries_keeps:
  assumes "rb_hash_aref (ids t) k = Some i"
  shows "rb_hash_aref (ids (fst (addEntries t kvs))) k = Some i"
  using assms
proof (induction kvs arbitrary: t)
  case Nil
  then show ?case by simp
next
  case (Cons kv kvs)
  obtain k' v where kv: "kv = (k', v)" by (cases kv)
  obtain t1 i1 where s1: "LeafTableInfo_addEntry t k' v = (t1, i1)" by fastforce
  obtain t2 os where s2: "addEntries t1 kvs = (t2, os)" by fastforce
  from addEntry_keeps [OF Cons.prems, of k' v] have "rb_hash_aref (ids t1) k = Some i"
    by (simp add: s1)
  from Cons.IH [OF this] show ?case by (simp add: kv s1 s2)
qed

text \<open>
  Claim C2, amended. Starting from an empty table, in every run of insertions with at
  most \<open>2^31\<close> distinct keys: each call of \<open>LeafTableInfo_addEntry\<close> returns the position
  of its key among the distinct keys in order of first insertion (0, 1, 2, ...);
  inserting a key that is already present returns that ordinal again and leaves the
  table as it is; \<open>LeafTableInfo_keyToID\<close> reports that ordinal for a present key, before
  and after any further insertions, and -1 for a key never inserted.
\<close>

theorem addEntry_ordinals:
  assumes "addEntries LeafTableInfo_init kvs = (t, ords)"
    and "length (first_seen [] (map fst kvs)) \<le> 2147483648"
  shows "ords = map (\<lambda>(k, v). position (first_seen [] (map fst kvs)) k) kvs
       \<and> (\<forall>k v. k \<in> fst ` set kvs \<longrightarrow>
            LeafTableInfo_addEntry t k v = (t, position (first_seen [] (map fst kvs)) k))
       \<and> (\<forall>k more. k \<in> fst ` set kvs \<longrightarrow>
            LeafTableInfo_keyToID t k = position (first_seen [] (map fst kvs)) k
            \<and> LeafTableInfo_keyToID (fst (addEntries t more)) k
                = position (first_seen [] (map fst kvs)) k)
       \<and> (\<forall>k. k \<notin> fst ` set kvs \<longrightarrow> LeafTableInfo_keyToID t k = - 1)"
proof -
  let ?ks = "first_seen [] (map fst kvs)"
  note run = addEntries_run [OF lti_inv_init assms(1)]
  have keys: "map fst (ids t) = ?ks"
    using run by (simp add: LeafTableInfo_init_def)
  have inv: "lti_inv t" using run by simp
  have present: "k \<in> fst ` set (ids t)" if "k \<in> fst ` set kvs" for k
  proof -
    have "k \<in> set (map fst (ids t))" using that by (simp add: keys set_first_seen)
    then show ?thesis by simp
  qed
  have absent: "k \<notin> fst ` set (ids t)" if "k \<notin> fst ` set kvs" for k
  proof -
    have "k \<notin> set (map fst (ids t))" using that by (simp add: keys set_first_seen)
    then show ?thesis by simp
  qed
  have fits: "int32 (position ?ks k) = position ?ks k" if "k \<in> fst ` set kvs" for k
  proof -
    have "k \<in> set ?ks" using that by (simp add: set_first_seen)
    then have "position ?ks k < int (length ?ks)" by (rule position_less)
    also have "\<dots> \<le> 2147483648" using assms(2) by simp
    finally show ?thesis using position_nonneg [of ?ks k] by (intro int32_id) simp_all
  qed
  have look: "rb_hash_aref (ids t) k = Some (position ?ks k)" if "k \<in> fst ` set kvs" for k
    using lti_lookup [OF inv present [OF that]] fits [OF that] by (simp add: keys)
  have c1: "ords = map (\<lambda>(k, v). position ?ks k) kvs"
  proof -
    have "ords = map (\<lambda>(k, v). int32 (position ?ks k)) kvs" using run keys by simp
    also have "\<dots> = map (\<lambda>(k, v). position ?ks k) kvs"
    proof (rule map_cong [OF refl])
      fix x assume "x \<in> set kvs"
      then have "fst x \<in> fst ` set kvs" by simp
      from fits [OF this] show "(case x of (k, v) \<Rightarrow> int32 (position ?ks k))
          = (case x of (k, v) \<Rightarrow> position ?ks k)"
        by (cases x) simp
    qed
    finally show ?thesis .
  qed
  have c2: "LeafTableInfo_addEntry t k v = (t, position ?ks k)" if "k \<in> fst ` set kvs" for k v
    using look [OF that] by (simp add: LeafTableInfo_addEntry_def)
  have c3: "LeafTableInfo_keyToID t k = position ?ks k
      \<and> LeafTableInfo_keyToID (fst (addEntries t more)) k = position ?ks k"
    if "k \<in> fst ` set kvs" for k more
    using look [OF that] addEntries_keeps [OF look [OF that], of more]
    by (simp add: LeafTableInfo_keyToID_def)
  have c4: "LeafTableInfo_keyToID t k = - 1" if "k \<notin> fst ` set kvs" for k
    using lti_lookup_none [OF absent [OF that]] by (simp add: LeafTableInfo_keyToID_def)
  from c1 c2 c3 c4 show ?thesis by blast
qed

theorem addEntry_ordinals_witness:
  "addEntries (LeafTableInfo_init :: (string, string) LeafTableInfo)
      [(''a'', ''x''), (''b'', ''y''), (''a'', ''z'')]
     = (\<lparr> vals = [(''a'', ''x''), (''b'', ''y'')], ids = [(''a'', 0), (''b'', 1)], pos = 2 \<rparr>,
        [0, 1, 0])
   \<and> LeafTableInfo_addEntry
        \<lparr> vals = [(''a'', ''x''), (''b'', ''y'')], ids = [(''a'', 0), (''b'', 1)], pos = 2 \<rparr>
        ''a'' ''w''
     = (\<lparr> vals = [(''a'', ''x''), (''b'', ''y'')], ids = [(''a'', 0), (''b'', 1)], pos = 2 \<rparr>, 0)
   \<and> LeafTableInfo_keyToID
        \<lparr> vals = [(''a'', ''x''), (''b'', ''y'')], ids = [(''a'', 0), (''b'', 1)], pos = 2 \<rparr> ''b''
     = 1
   \<and> LeafTableInfo_keyToID
        \<lparr> vals = [(''a'', ''x''), (''b'', ''y'')], ids = [(''a'', 0), (''b'', 1)], pos = 2 \<rparr> ''c''
     = - 1"
proof -
  let ?t = "\<lparr> vals = [(''a'', ''x''), (''b'', ''y'')], ids = [(''a'', 0), (''b'', 1)], pos = 2 \<rparr>
              :: (string, string) LeafTableInfo"
  let ?kvs = "[(''a'', ''x''), (''b'', ''y''), (''a'', ''z'')]"
  have run: "addEntries (LeafTableInfo_init :: (string, string) LeafTableInfo) ?kvs = (?t, [0, 1, 0])"
    by (simp add: LeafTableInfo_init_def LeafTableInfo_addEntry_def rb_hash_aref_def
        rb_hash_aset_def int32_def)
  have bound: "length (first_seen [] (map fst ?kvs)) \<le> 2147483648" by simp
  have pa: "position (first_seen [] (map fst ?kvs)) ''a'' = 0"
    and pb: "position (first_seen [] (map fst ?kvs)) ''b'' = 1"
    by (simp_all add: position_def)
  from addEntry_ordinals [OF run bound] have
    "LeafTableInfo_addEntry ?t ''a'' ''w'' = (?t, position (first_seen [] (map fst ?kvs)) ''a'')"
    "LeafTableInfo_keyToID ?t ''b'' = position (first_seen [] (map fst ?kvs)) ''b''"
    "LeafTableInfo_keyToID ?t ''c'' = - 1"
    by simp_all
  then show ?thesis using run unfolding pa pb by simp
qed

text \<open>
  The ordinal is an \<open>int\<close>. In a run of \<open>2^31 + 1\<close> distinct keys the last key is the
  one first inserted at position \<open>2^31\<close>, and the ordinal returned for it is \<open>- 2^31\<close>.
\<close>

lemma first_seen_distinct: "distinct (acc @ ks) \<Longrightarrow> first_seen acc ks = acc @ ks"
  by (induction ks arbitrary: acc) auto

lemma ordinal_of_last:
  fixes N :: nat
  shows "snd (addEntries (LeafTableInfo_init :: (nat, nat) LeafTableInfo)
              (zip [0..<Suc N] [0..<Suc N])) ! N = int32 (int N)
       \<and> position (first_seen [] (map fst (zip [0..<Suc N] [0..<Suc N]))) N = int N"
proof -
  let ?kvs = "zip [0..<Suc N] [0..<Suc N]"
  obtain t ords where r: "addEntries (LeafTableInfo_init :: (nat, nat) LeafTableInfo) ?kvs = (t, ords)"
    by fastforce
  note run = addEntries_run [OF lti_inv_init r]
  have fs: "first_seen [] (map fst ?kvs) = [0..<Suc N]"
    using first_seen_distinct [of "[]" "[0..<Suc N]"] by simp
  have keys: "map fst (ids t) = [0..<Suc N]"
    using run fs by (simp add: LeafTableInfo_init_def)
  have p: "position [0..<Suc N] N = int N"
    using position_fresh [of N "[0..<N]"] by simp
  have "ords ! N = (\<lambda>(k, v). int32 (position [0..<Suc N] k)) (?kvs ! N)"
    using run keys by (simp del: upt_Suc)
  also have "?kvs ! N = (N, N)" by (simp add: nth_append)
  finally have "ords ! N = int32 (int N)" by (simp add: p del: upt_Suc)
  then show ?thesis using r p fs by (simp del: upt_Suc)
qed

theorem addEntry_ordinals_counterexample:
  "snd (addEntries (LeafTableInfo_init :: (nat, nat) LeafTableInfo)
          (zip [0..<Suc 2147483648] [0..<Suc 2147483648])) ! 2147483648 = - 2147483648
   \<and> position (first_seen [] (map fst (zip [0..<Suc 2147483648] [0..<Suc 2147483648]))) 2147483648
       = 2147483648"
proof -
  have i: "int32 2147483648 = - 2147483648" by (simp add: int32_def)
  from ordinal_of_last [of 2147483648] show ?thesis unfolding of_nat_numeral i .
qed


section \<open>Properties of the text codec\<close>

subsection \<open>The tables\<close>

lemma val_to_char_codes: "map unat val_to_char = map of_char
     (''ABCDEFGHIJKLMNOPQRSTUVWXYZ'' @ ''abcdefghijklmnopqrstuvwxyz'' @ ''0123456789'' @
      ''!$%&()*-./'' @ '':;<=>?@[]^'' @ '',_|'')"
  by (simp add: val_to_char_def)

lemma val_to_char_distinct: "distinct (map unat val_to_char)"
  unfolding val_to_char_codes by simp

lemma val_to_char_small: "list_all (\<lambda>c. c < 128) (map unat val_to_char)"
  unfolding val_to_char_codes by simp

lemma val_to_char_length: "length val_to_char = 85"
  by (simp add: val_to_char_def)

lemma val_to_char_blank: "32 \<notin> set (map unat val_to_char)" "10 \<notin> set (map unat val_to_char)"
  unfolding val_to_char_codes by simp_all

lemma fill_char_to_val_spec:
  assumes "distinct (map (\<lambda>i. unat (val_to_char ! i)) js)"
    and "\<forall>i\<in>set js. unat (val_to_char ! i) < length tbl \<and> tbl ! unat (val_to_char ! i) = - 1"
  shows "\<exists>tbl'. fill_char_to_val js tbl = Inr tbl' \<and> length tbl' = length tbl
     \<and> (\<forall>i\<in>set js. tbl' ! unat (val_to_char ! i) = int i)
     \<and> (\<forall>c. c \<notin> (\<lambda>i. unat (val_to_char ! i)) ` set js \<longrightarrow> tbl' ! c = tbl ! c)"
  using assms
proof (induction js arbitrary: tbl)
  case Nil
  then show ?case by simp
next
  case (Cons i js)
  let ?c = "\<lambda>i. unat (val_to_char ! i)"
  let ?t = "tbl [?c i := int i]"
  have d: "distinct (map ?c js)" and ni: "?c i \<notin> ?c ` set js"
    using Cons.prems(1) by auto
  have pre: "\<forall>j\<in>set js. ?c j < length ?t \<and> ?t ! ?c j = - 1"
    using Cons.prems(2) ni by (auto simp: nth_list_update)
  from Cons.IH [OF d pre] obtain tbl' where t:
    "fill_char_to_val js ?t = Inr tbl'" "length tbl' = length ?t"
    "\<forall>j\<in>set js. tbl' ! ?c j = int j"
    "\<forall>c. c \<notin> ?c ` set js \<longrightarrow> tbl' ! c = ?t ! c"
    by blast
  have "fill_char_to_val (i # js) tbl = Inr tbl'"
    using Cons.prems(2) t(1) by simp
  moreover have "tbl' ! ?c i = int i"
    using t(4) ni Cons.prems(2) by simp
  moreover have "\<forall>c. c \<notin> ?c ` set (i # js) \<longrightarrow> tbl' ! c = tbl ! c"
    using t(4) by (auto simp: nth_list_update)
  ultimately show ?case using t(2,3) by auto
qed

lemma check_char_to_val_spec:
  "\<forall>i\<in>set js. tbl ! unat (val_to_char ! i) = int i \<Longrightarrow> check_char_to_val js tbl = Inr tbl"
  by (induction js) auto

lemma codes_upt: "map (\<lambda>i. unat (val_to_char ! i)) [0..<85] = map unat val_to_char"
proof -
  have "map unat (map ((!) val_to_char) [0..<length val_to_char]) = map unat val_to_char"
    by (simp only: map_nth)
  then show ?thesis by (simp add: val_to_char_length o_def)
qed

lemma base85r_init_tables_spec:
  "\<exists>tbl. base85r_init_tables = Inr tbl \<and> length tbl = 128
     \<and> (\<forall>d<85. tbl ! unat (val_to_char ! d) = int d)
     \<and> (\<forall>c<128. c \<notin> set (map unat val_to_char) \<longrightarrow> tbl ! c = - 1)"
proof -
  let ?c = "\<lambda>i. unat (val_to_char ! i)"
  have small: "\<forall>i\<in>set [0..<85]. ?c i < 128"
    using val_to_char_small val_to_char_length by (auto simp: list_all_iff)
  have d: "distinct (map ?c [0..<85])"
    unfolding codes_upt by (rule val_to_char_distinct)
  have pre: "\<forall>i\<in>set [0..<85]. ?c i < length (replicate 128 (- 1 :: int))
       \<and> replicate 128 (- 1 :: int) ! ?c i = - 1"
    using small by simp
  from fill_char_to_val_spec [OF d pre] obtain tbl' where t:
    "fill_char_to_val [0..<85] (replicate 128 (- 1)) = Inr tbl'" "length tbl' = 128"
    "\<forall>j\<in>set [0..<85]. tbl' ! ?c j = int j"
    "\<forall>c. c \<notin> ?c ` set [0..<85] \<longrightarrow> tbl' ! c = replicate 128 (- 1) ! c"
    by auto
  have init: "base85r_init_tables = Inr tbl'"
    unfolding base85r_init_tables_def t(1) using check_char_to_val_spec [OF t(3)] by simp
  have img: "?c ` set [0..<85] = set (map unat val_to_char)"
    using codes_upt by (metis set_map)
  have "\<forall>c<128. c \<notin> set (map unat val_to_char) \<longrightarrow> tbl' ! c = - 1"
    using t(4) img by simp
  with init t(2,3) show ?thesis by auto
qed

lemma char_to_val_spec:
  "length char_to_val = 128"
  "d < 85 \<Longrightarrow> char_to_val ! unat (val_to_char ! d) = int d"
  "c < 128 \<Longrightarrow> c \<notin> set (map unat val_to_char) \<Longrightarrow> char_to_val ! c = - 1"
proof -
  from base85r_init_tables_spec obtain tbl where t: "base85r_init_tables = Inr tbl"
    "length tbl = 128" "\<forall>d<85. tbl ! unat (val_to_char ! d) = int d"
    "\<forall>c<128. c \<notin> set (map unat val_to_char) \<longrightarrow> tbl ! c = - 1"
    by blast
  have eq: "char_to_val = tbl" unfolding char_to_val_def t(1) by simp
  show "length char_to_val = 128" by (simp add: eq t(2))
  show "d < 85 \<Longrightarrow> char_to_val ! unat (val_to_char ! d) = int d" using t(3) by (simp add: eq)
  show "c < 128 \<Longrightarrow> c \<notin> set (map unat val_to_char) \<Longrightarrow> char_to_val ! c = - 1"
    using t(4) by (simp add: eq)
qed

lemma skipped_blank: "skipped 32" "skipped 10"
  using char_to_val_spec(3) [of 32] char_to_val_spec(3) [of 10] val_to_char_blank
  by (simp_all add: skipped_def)

subsection \<open>Groups of four bytes and five digits\<close>

lemma ff_mask: "(0xFF :: u32) = mask 8"
  by (simp add: mask_eq_exp_minus_1)

lemma bytes_back:
  fixes b0 b1 b2 b3 :: byte
  defines "v \<equiv> (((0 OR push_bit 24 (ucast b0)) OR push_bit 16 (ucast b1)) OR push_bit 8 (ucast b2)) OR push_bit 0 (ucast b3) :: u32"
  shows "put_four v = [b0, b1, b2, b3]"
  unfolding put_four_def v_def ff_mask
  apply simp
  apply (intro conjI bit_word_eqI)
     apply (auto simp: bit_simps dest: bit_imp_le_length)
  done

lemma base85_nat:
  fixes n :: nat
  assumes "n < 4437053125"
  shows "(n div 52200625) mod 85 * 52200625 + (n div 614125) mod 85 * 614125
       + (n div 7225) mod 85 * 7225 + (n div 85) mod 85 * 85 + n mod 85 = n"
proof -
  define a1 where "a1 = n div 85"
  define a2 where "a2 = a1 div 85"
  define a3 where "a3 = a2 div 85"
  define a4 where "a4 = a3 div 85"
  have d2: "n div 7225 = a2" unfolding a2_def a1_def by (simp add: div_mult2_eq [symmetric])
  have d3: "n div 614125 = a3" unfolding a3_def a2_def a1_def by (simp add: div_mult2_eq [symmetric])
  have d4: "n div 52200625 = a4" unfolding a4_def a3_def a2_def a1_def by (simp add: div_mult2_eq [symmetric])
  have "a4 < 85" using assms unfolding d4 [symmetric] by simp
  then have m4: "a4 mod 85 = a4" by simp
  have e0: "n = a1 * 85 + n mod 85" unfolding a1_def by simp
  have e1: "a1 = a2 * 85 + a1 mod 85" unfolding a2_def by simp
  have e2: "a2 = a3 * 85 + a2 mod 85" unfolding a3_def by simp
  have e3: "a3 = a4 * 85 + a3 mod 85" unfolding a4_def by simp
  have "a4 * 52200625 + a3 mod 85 * 614125 + a2 mod 85 * 7225 + a1 mod 85 * 85 + n mod 85
      = (((a4 * 85 + a3 mod 85) * 85 + a2 mod 85) * 85 + a1 mod 85) * 85 + n mod 85"
    by simp
  also have "\<dots> = n" using e0 e1 e2 e3 by simp
  finally show ?thesis by (simp add: d2 d3 d4 m4 a1_def [symmetric])
qed

lemma decode_loop_skip:
  "skipped c \<Longrightarrow> decode_loop (c # rest) st = decode_loop rest st"
  by (cases st) (simp add: skipped_def)

lemma decode_loop_padded:
  "padded s s' \<Longrightarrow> decode_loop s' st = decode_loop s st"
proof (induction arbitrary: st rule: padded.induct)
  case padded_Nil
  show ?case by simp
next
  case (padded_keep s s' c)
  obtain tlen sh v out where st: "st = (tlen, sh, v, out)" by (cases st)
  show ?case unfolding st by (simp add: padded_keep.IH Let_def)
next
  case (padded_skip c s s')
  then show ?case by (simp add: decode_loop_skip)
qed

lemma digit_code:
  assumes "d < 85"
  shows "unat (val_to_char ! d) < 128" "char_to_val ! unat (val_to_char ! d) = int d"
proof -
  have "unat (val_to_char ! d) \<in> set (map unat val_to_char)"
    using assms val_to_char_length by simp
  then show "unat (val_to_char ! d) < 128"
    using val_to_char_small by (auto simp: list_all_iff)
  show "char_to_val ! unat (val_to_char ! d) = int d"
    by (rule char_to_val_spec(2) [OF assms])
qed

lemma decode_loop_digit:
  assumes "d < 85" "tlen \<noteq> - 1"
  shows "decode_loop (val_to_char ! d # rest) (tlen, sh, v, out) =
     (if sh + 1 = 5 then decode_loop rest (tlen, 0, 0, out @ put_four (v + of_nat d * (di_val ! sh)))
      else decode_loop rest (tlen, sh + 1, v + of_nat d * (di_val ! sh), out))"
  using digit_code [OF assms(1)] assms(2) by (simp add: Let_def)

lemma decode_loop_header:
  assumes "d \<le> 4"
  shows "decode_loop (val_to_char ! d # rest) (- 1, sh, v, out) = decode_loop rest (int d, sh, v, out)"
  using digit_code [of d] assms by (simp add: Let_def)

lemma base85_word:
  fixes v :: u32
  shows "(v div 52200625) mod 85 * 52200625 + (v div 614125) mod 85 * 614125
       + (v div 7225) mod 85 * 7225 + (v div 85) mod 85 * 85 + v mod 85 = v"
proof -
  have lt: "unat v < 4437053125"
    using unsigned_less [of v, where ?'a = nat] by simp
  have "unat ((v div 52200625) mod 85 * 52200625 + (v div 614125) mod 85 * 614125
       + (v div 7225) mod 85 * 7225 + (v div 85) mod 85 * 85 + v mod 85)
     = ((unat v div 52200625) mod 85 * 52200625 + (unat v div 614125) mod 85 * 614125
       + (unat v div 7225) mod 85 * 7225 + (unat v div 85) mod 85 * 85 + unat v mod 85) mod 2 ^ 32"
  proof -
    have dm: "unat v div k mod 4294967296 = unat v div k" for k
    proof -
      have "unat v div k \<le> unat v" by (rule div_le_dividend)
      moreover have "unat v < 4294967296"
        using unsigned_less [of v, where ?'a = nat] by simp
      ultimately have "unat v div k < 4294967296"
        by (rule le_less_trans)
      then show ?thesis by simp
    qed
    show ?thesis by (simp add: unat_word_ariths unat_div unat_mod mod_simps dm)
  qed
  also have "\<dots> = unat v mod 2 ^ 32"
    by (simp only: base85_nat [OF lt])
  also have "\<dots> = unat v" using unsigned_less [of v, where ?'a = nat] by simp
  finally show ?thesis by (simp add: word_unat_eq_iff)
qed

lemma digit_lt: "unat ((v div d) mod 85 :: u32) < 85"
  by (simp add: unat_mod)

lemma digit_lt0: "unat (v mod 85 :: u32) < 85"
  by (simp add: unat_mod)

lemma di_val_nth:
  "di_val ! 0 = 52200625" "di_val ! Suc 0 = 614125" "di_val ! Suc (Suc 0) = 7225"
  "di_val ! Suc (Suc (Suc 0)) = 85" "di_val ! Suc (Suc (Suc (Suc 0))) = 1"
  by (simp_all add: di_val_def)

lemma decode_loop_group:
  assumes "tlen \<noteq> - 1"
  shows "decode_loop (put_five val @ rest) (tlen, 0, 0, out) =
         decode_loop rest (tlen, 0, 0, out @ put_four val)"
proof -
  have five: "put_five val =
    [val_to_char ! unat ((val div 52200625) mod 85), val_to_char ! unat ((val div 614125) mod 85),
     val_to_char ! unat ((val div 7225) mod 85), val_to_char ! unat ((val div 85) mod 85),
     val_to_char ! unat ((val div 1) mod 85)]"
    by (simp add: put_five_def di_val_def)
  show ?thesis
    unfolding five
    using base85_word [of val]
    by (simp add: decode_loop_digit [OF digit_lt assms] decode_loop_digit [OF digit_lt0 assms]
        di_val_nth del: decode_loop.simps)
qed

lemma take4_drop:
  assumes "ipos + 3 < length xs"
  shows "take 4 (drop ipos xs) = [xs ! ipos, xs ! (ipos + 1), xs ! (ipos + 2), xs ! (ipos + 3)]"
  using assms by (auto simp: list_eq_iff_nth_eq less_Suc_eq numeral_eq_Suc)

lemma add_as_Suc: "n + 2 = Suc (Suc n)" "n + 3 = Suc (Suc (Suc n))"
  by simp_all

lemma get_four_full:
  assumes "ipos + 3 < length inptr"
  shows "snd (get_four inptr [24, 16, 8, 0] ipos 0) = ipos + 4"
    and "put_four (fst (get_four inptr [24, 16, 8, 0] ipos 0)) = take 4 (drop ipos inptr)"
proof -
  have g: "get_four inptr [24, 16, 8, 0] ipos 0 =
     ((((0 OR push_bit 24 (ucast (inptr ! ipos))) OR push_bit 16 (ucast (inptr ! (ipos + 1))))
        OR push_bit 8 (ucast (inptr ! (ipos + 2)))) OR push_bit 0 (ucast (inptr ! (ipos + 3))), ipos + 4)"
    using assms by (simp add: add_as_Suc)
  show "snd (get_four inptr [24, 16, 8, 0] ipos 0) = ipos + 4" by (simp only: g snd_conv)
  show "put_four (fst (get_four inptr [24, 16, 8, 0] ipos 0)) = take 4 (drop ipos inptr)"
    by (simp only: g fst_conv bytes_back take4_drop [OF assms])
qed

lemma get_four_part:
  assumes "ipos < length inptr" "length inptr \<le> ipos + 3"
  shows "snd (get_four inptr [24, 16, 8, 0] ipos 0) = length inptr"
    and "put_four (fst (get_four inptr [24, 16, 8, 0] ipos 0))
           = drop ipos inptr @ replicate (4 - (length inptr - ipos)) 0"
proof -
  consider (one) "length inptr = ipos + 1" | (two) "length inptr = ipos + 2"
    | (three) "length inptr = ipos + 3"
    using assms by linarith
  then have "snd (get_four inptr [24, 16, 8, 0] ipos 0) = length inptr
    \<and> put_four (fst (get_four inptr [24, 16, 8, 0] ipos 0))
           = drop ipos inptr @ replicate (4 - (length inptr - ipos)) 0"
  proof cases
    case one
    have g: "get_four inptr [24, 16, 8, 0] ipos 0 =
      ((((0 OR push_bit 24 (ucast (inptr ! ipos))) OR push_bit 16 (ucast (0 :: byte)))
        OR push_bit 8 (ucast (0 :: byte))) OR push_bit 0 (ucast (0 :: byte)), ipos + 1)"
      using one by simp
    have d: "drop ipos inptr = [inptr ! ipos]"
      using one by (auto simp: list_eq_iff_nth_eq)
    show ?thesis by (simp only: g fst_conv snd_conv bytes_back d) (simp add: one numeral_eq_Suc)
  next
    case two
    have g: "get_four inptr [24, 16, 8, 0] ipos 0 =
      ((((0 OR push_bit 24 (ucast (inptr ! ipos))) OR push_bit 16 (ucast (inptr ! (ipos + 1))))
        OR push_bit 8 (ucast (0 :: byte))) OR push_bit 0 (ucast (0 :: byte)), ipos + 2)"
      using two by (simp add: add_as_Suc)
    have d: "drop ipos inptr = [inptr ! ipos, inptr ! (ipos + 1)]"
      using two by (auto simp: list_eq_iff_nth_eq less_Suc_eq numeral_eq_Suc)
    show ?thesis by (simp only: g fst_conv snd_conv bytes_back d) (simp add: two numeral_eq_Suc)
  next
    case three
    have g: "get_four inptr [24, 16, 8, 0] ipos 0 =
      ((((0 OR push_bit 24 (ucast (inptr ! ipos))) OR push_bit 16 (ucast (inptr ! (ipos + 1))))
        OR push_bit 8 (ucast (inptr ! (ipos + 2)))) OR push_bit 0 (ucast (0 :: byte)), ipos + 3)"
      using three by (simp add: add_as_Suc)
    have d: "drop ipos inptr = [inptr ! ipos, inptr ! (ipos + 1), inptr ! (ipos + 2)]"
      using three by (auto simp: list_eq_iff_nth_eq less_Suc_eq numeral_eq_Suc)
    show ?thesis by (simp only: g fst_conv snd_conv bytes_back d) (simp add: three numeral_eq_Suc)
  qed
  then show "snd (get_four inptr [24, 16, 8, 0] ipos 0) = length inptr"
    and "put_four (fst (get_four inptr [24, 16, 8, 0] ipos 0))
           = drop ipos inptr @ replicate (4 - (length inptr - ipos)) 0"
    by simp_all
qed

subsection \<open>The encoder loop\<close>

lemma div56_step:
  fixes i :: nat
  assumes "4 dvd i"
  shows "(i + 4) div 56 = i div 56 + (if (i + 4) mod 56 = 0 then 1 else 0)"
proof -
  have r: "i mod 56 \<le> 52"
  proof -
    have "4 dvd i mod 56" using assms by (simp add: dvd_mod)
    moreover have "i mod 56 < 56" by simp
    ultimately show ?thesis by presburger
  qed
  have i: "i = 56 * (i div 56) + i mod 56" by simp
  show ?thesis
  proof (cases "i mod 56 = 52")
    case True
    have "i + 4 = 56 * (i div 56 + 1)" using i True by simp
    then have "(i + 4) div 56 = i div 56 + 1" "(i + 4) mod 56 = 0"
      by (metis nonzero_mult_div_cancel_left zero_neq_numeral, metis mod_mult_self1_is_0)
    then show ?thesis by simp
  next
    case False
    with r have lt: "i mod 56 + 4 < 56" by simp
    have "i + 4 = 56 * (i div 56) + (i mod 56 + 4)" using i by simp
    then have "(i + 4) div 56 = i div 56" "(i + 4) mod 56 = i mod 56 + 4"
      using lt by (metis div_mult_self2 div_less add.commute add_cancel_left_left zero_neq_numeral,
          metis mod_mult_self4 mod_less)
    then show ?thesis by simp
  qed
qed

lemma encode_loop_step:
  assumes "ipos < length inptr" "get_four inptr [24, 16, 8, 0] ipos 0 = (v, p)"
  shows "encode_loop inptr ipos =
        put_five v @ (if p mod (4 * 14) = 0 then [10, 32] else []) @ encode_loop inptr p"
  using assms by (simp add: encode_loop.simps [of inptr ipos] del: get_four.simps)

lemma decode_encode_loop:
  assumes "tlen \<noteq> - 1"
  shows "decode_loop (encode_loop inptr ipos @ rest) (tlen, 0, 0, out) =
         decode_loop rest (tlen, 0, 0,
           out @ drop ipos inptr @ replicate ((4 - (length inptr - ipos) mod 4) mod 4) 0)"
proof (induction inptr ipos arbitrary: out rule: encode_loop.induct)
  case (1 inptr ipos)
  show ?case
  proof (cases "ipos < length inptr")
    case False
    then show ?thesis by (simp add: encode_loop.simps [of inptr ipos])
  next
    case True
    obtain v p where g: "get_four inptr [24, 16, 8, 0] ipos 0 = (v, p)" by fastforce
    note ih = "1.IH" [OF True g [symmetric] refl]
    have enc: "encode_loop inptr ipos =
        put_five v @ (if p mod (4 * 14) = 0 then [10, 32] else []) @ encode_loop inptr p"
      by (rule encode_loop_step [OF True g])
    have nl: "decode_loop ((if p mod (4 * 14) = 0 then [10, 32] else []) @ xs) st = decode_loop xs st"
      for xs st
      by (simp add: decode_loop_skip skipped_blank)
    have step: "decode_loop (encode_loop inptr ipos @ rest) (tlen, 0, 0, out) =
                decode_loop rest (tlen, 0, 0,
                  out @ put_four v @ drop p inptr @ replicate ((4 - (length inptr - p) mod 4) mod 4) 0)"
      unfolding enc append_assoc decode_loop_group [OF assms] nl
      using ih [of "out @ put_four v"] by simp
    show ?thesis
    proof (cases "ipos + 3 < length inptr")
      case full: True
      from get_four_full [OF full] g have p: "p = ipos + 4"
        and v: "put_four v = take 4 (drop ipos inptr)" by simp_all
      have app: "take 4 (drop ipos inptr) @ drop p inptr @ zs = drop ipos inptr @ zs" for zs
      proof -
        have "take 4 (drop ipos inptr) @ drop 4 (drop ipos inptr) = drop ipos inptr"
          by (rule append_take_drop_id)
        then have "take 4 (drop ipos inptr) @ drop p inptr = drop ipos inptr"
          unfolding p by (simp add: add.commute)
        then show ?thesis by (metis append_assoc)
      qed
      have pad: "(4 - (length inptr - p) mod 4) mod 4 = (4 - (length inptr - ipos) mod 4) mod 4"
      proof -
        have "length inptr - ipos = (length inptr - p) + 4" using full unfolding p by simp
        then show ?thesis by simp
      qed
      show ?thesis unfolding step v pad app by (rule refl)
    next
      case part: False
      then have le: "length inptr \<le> ipos + 3" by simp
      from get_four_part [OF True le] g have p: "p = length inptr"
        and v: "put_four v = drop ipos inptr @ replicate (4 - (length inptr - ipos)) 0" by simp_all
      have "(4 - (length inptr - ipos) mod 4) mod 4 = 4 - (length inptr - ipos)"
      proof -
        have "0 < length inptr - ipos" "length inptr - ipos < 4" using True le by simp_all
        then show ?thesis by simp
      qed
      then show ?thesis unfolding step v p by simp
    qed
  qed
qed

lemma length_put_five: "length (put_five v) = 5"
  by (simp add: put_five_def di_val_def)

lemma length_encode_loop:
  assumes "4 dvd ipos"
  shows "length (encode_loop inptr ipos) =
     5 * ((length inptr - ipos + 3) div 4) + 2 * (length inptr div 56 - ipos div 56)"
  using assms
proof (induction inptr ipos rule: encode_loop.induct)
  case (1 inptr ipos)
  show ?case
  proof (cases "ipos < length inptr")
    case False
    then have "length inptr div 56 \<le> ipos div 56" by (intro div_le_mono) simp
    with False show ?thesis by (simp add: encode_loop.simps [of inptr ipos])
  next
    case True
    obtain v p where g: "get_four inptr [24, 16, 8, 0] ipos 0 = (v, p)" by fastforce
    note ih = "1.IH" [OF True g [symmetric] refl]
    have enc: "length (encode_loop inptr ipos) =
        5 + (if p mod 56 = 0 then 2 else 0) + length (encode_loop inptr p)"
      by (simp add: encode_loop_step [OF True g] length_put_five)
    show ?thesis
    proof (cases "ipos + 3 < length inptr")
      case full: True
      from get_four_full [OF full] g have p: "p = ipos + 4" by simp
      have "4 dvd p" using "1.prems" unfolding p by simp
      note ih' = ih [OF this, unfolded p]
      have a: "(length inptr - ipos + 3) div 4 = (length inptr - (ipos + 4) + 3) div 4 + 1"
      proof -
        define m where "m = length inptr - (ipos + 4)"
        have m: "length inptr = ipos + 4 + m" using full by (simp add: m_def)
        show ?thesis unfolding m by simp
      qed
      have "(ipos + 4) div 56 \<le> length inptr div 56"
        using full by (intro div_le_mono) simp
      then have b: "length inptr div 56 - ipos div 56 =
          (length inptr div 56 - (ipos + 4) div 56) + (if (ipos + 4) mod 56 = 0 then 1 else 0)"
        unfolding div56_step [OF "1.prems"] by simp
      show ?thesis
        unfolding enc p ih' a b by simp
    next
      case part: False
      then have le: "length inptr \<le> ipos + 3" by simp
      from get_four_part [OF True le] g have p: "p = length inptr" by simp
      have e: "encode_loop inptr (length inptr) = []"
        by (simp add: encode_loop.simps [of inptr "length inptr"])
      have a: "(length inptr - ipos + 3) div 4 = 1"
      proof -
        have "0 < length inptr - ipos" "length inptr - ipos < 4" using True le by simp_all
        then show ?thesis by simp
      qed
      have b: "length inptr div 56 - ipos div 56 = (if length inptr mod 56 = 0 then 1 else 0)"
      proof (cases "ipos + 4 = length inptr")
        case True
        have "ipos div 56 \<le> (ipos + 4) div 56" by (intro div_le_mono) simp
        then show ?thesis
          using div56_step [OF "1.prems"] unfolding True by simp
      next
        case False
        with True le have lt: "length inptr < ipos + 4" by simp
        have "(ipos + 4) mod 56 = 0 \<Longrightarrow> length inptr div 56 = ipos div 56"
        proof -
          assume z: "(ipos + 4) mod 56 = 0"
          have "ipos div 56 \<le> length inptr div 56" using \<open>ipos < length inptr\<close> by (intro div_le_mono) simp
          moreover have "length inptr div 56 < (ipos + 4) div 56"
          proof -
            have "ipos + 4 = 56 * ((ipos + 4) div 56)" using z by (metis mult_div_mod_eq add.right_neutral)
            with lt have "length inptr < 56 * ((ipos + 4) div 56)" by simp
            then show ?thesis by (simp add: less_mult_imp_div_less mult.commute)
          qed
          ultimately show ?thesis using div56_step [OF "1.prems"] z by simp
        qed
        moreover have "(ipos + 4) mod 56 \<noteq> 0 \<Longrightarrow> length inptr div 56 = ipos div 56"
        proof -
          assume nz: "(ipos + 4) mod 56 \<noteq> 0"
          have "ipos div 56 \<le> length inptr div 56" using \<open>ipos < length inptr\<close> by (intro div_le_mono) simp
          moreover have "length inptr div 56 \<le> (ipos + 4) div 56" using lt by (intro div_le_mono) simp
          ultimately show ?thesis using div56_step [OF "1.prems"] nz by simp
        qed
        moreover have "length inptr mod 56 \<noteq> 0"
        proof
          assume z: "length inptr mod 56 = 0"
          then have "56 dvd length inptr" by (simp add: dvd_eq_mod_eq_0)
          moreover have "(4::nat) dvd 56" by simp
          ultimately have "4 dvd length inptr" by (rule dvd_trans [rotated])
          then have "4 dvd (length inptr - ipos)" using "1.prems" by (rule dvd_diff_nat)
          moreover have "0 < length inptr - ipos" using \<open>ipos < length inptr\<close> by simp
          ultimately have "4 \<le> length inptr - ipos" by (rule dvd_imp_le)
          with lt show False by simp
        qed
        ultimately have "length inptr div 56 = ipos div 56" "length inptr mod 56 \<noteq> 0"
          by blast+
        then show ?thesis by simp
      qed
      show ?thesis unfolding enc p e a b by simp
    qed
  qed
qed

lemma c_div_nonneg: "0 \<le> a \<Longrightarrow> 0 < b \<Longrightarrow> c_div a b = a div b"
  by (cases "a = 0") (simp_all add: c_div_def)

lemma c_mod_nonneg: "0 \<le> a \<Longrightarrow> 0 < b \<Longrightarrow> c_mod a b = a mod b"
  by (simp add: c_mod_def c_div_nonneg minus_mult_div_eq_mod)

lemma round_up4: "(n div 4) * 4 + (if n mod 4 \<noteq> 0 then 4 else 0) = 4 * ((n + 3) div 4)" for n :: nat
  by presburger

lemma buf_len_value:
  fixes n :: nat
  assumes "n \<le> 16361780"
  shows "base85_encode_buf_len (int n) = int (525 * ((n + 3) div 4) div 100 + 32)"
proof -
  define k where "k = (n + 3) div 4"
  have k: "k \<le> 4090445" using assms unfolding k_def by simp
  have b1: "int32 ((int n div 4) * 4) = int ((n div 4) * 4)"
    using assms by (subst int32_id) (simp_all add: zdiv_int)
  have cm: "c_mod (int n) 4 \<noteq> 0 \<longleftrightarrow> n mod 4 \<noteq> 0"
  proof -
    have "int n mod 4 = int (n mod 4)" by (simp add: zmod_int)
    then show ?thesis by (simp add: c_mod_nonneg)
  qed
  have b2: "(if n mod 4 \<noteq> 0 then int32 (int ((n div 4) * 4) + 4) else int ((n div 4) * 4)) = int (4 * k)"
  proof -
    have "int32 (int ((n div 4) * 4) + 4) = int ((n div 4) * 4 + 4)"
      using assms by (subst int32_id) simp_all
    then show ?thesis using round_up4 [of n] unfolding k_def by (simp split: if_splits)
  qed
  have b3: "c_div (int32 (int (4 * k) * 5)) 4 = int (5 * k)"
    using k by (subst int32_id) (simp_all add: c_div_nonneg)
  have b4: "c_div (int32 (int (5 * k) * 105)) 100 = int (525 * k div 100)"
    using k by (subst int32_id) (simp_all add: c_div_nonneg zdiv_int)
  have b5: "int32 (int (525 * k div 100) + 32) = int (525 * k div 100 + 32)"
    using k by (subst int32_id) simp_all
  show ?thesis
    unfolding base85_encode_buf_len_def Let_def b1 cm b2 b3 b4 b5 k_def [symmetric] by (rule refl)
qed

lemma out_fits:
  fixes n :: nat
  shows "2 + (5 * ((n + 3) div 4) + 2 * (n div 56)) < 525 * ((n + 3) div 4) div 100 + 32"
proof -
  define k where "k = (n + 3) div 4"
  have "n \<le> 4 * k" unfolding k_def by presburger
  then have "n div 56 \<le> 4 * k div 56" by (rule div_le_mono)
  also have "\<dots> = k div 14" by simp
  finally have nl: "n div 56 \<le> k div 14" .
  have "14 * (k div 14) \<le> k" by simp
  then have "4 * (2 * (k div 14)) \<le> k" by simp
  then have q: "2 * (k div 14) \<le> k div 4" by (simp add: less_eq_div_iff_mult_less_eq)
  have "525 * k div 100 = 5 * k + k div 4"
  proof -
    have "525 * k = 25 * (20 * k + k)" by simp
    then have "525 * k div 100 = (20 * k + k) div 4" by (simp only: div_mult_mult1 [of 25 _ 4, simplified])
    also have "\<dots> = 5 * k + k div 4" by simp
    finally show ?thesis .
  qed
  then show ?thesis unfolding k_def [symmetric] using nl q by simp
qed

subsection \<open>Round trip\<close>

lemma base85r_encode_value:
  assumes "length b \<le> 16361780"
  shows "base85r_encode b = Inr ([32, val_to_char ! (length b mod 4)] @ encode_loop b 0)"
proof -
  let ?n = "length b"
  have i: "int32 (int ?n) = int ?n" using assms by (subst int32_id) simp_all
  have cm: "nat (c_mod (int ?n) 4) = ?n mod 4"
  proof -
    have "int ?n mod 4 = int (?n mod 4)" by (simp add: zmod_int)
    then show ?thesis by (simp add: c_mod_nonneg)
  qed
  have tk: "take (nat (int ?n)) b = b" by simp
  have len: "length (encode_loop b 0) = 5 * ((?n + 3) div 4) + 2 * (?n div 56)"
    using length_encode_loop [of 0 b] by simp
  have fits: "int (length ([32, val_to_char ! (?n mod 4)] @ encode_loop b 0))
      < base85_encode_buf_len (int ?n)"
    unfolding buf_len_value [OF assms] using out_fits [of ?n] by (simp add: len)
  then have nonneg: "\<not> base85_encode_buf_len (int ?n) < 0" by simp
  show ?thesis
    unfolding base85r_encode_def Let_def i cm tk
    using fits nonneg by (simp add: rb_str_resize_def)
qed

lemma padded_refl: "padded s s"
  by (induction s) (auto intro: padded.intros)




lemma decode_encoded:
  assumes "length b \<le> 16361780"
  shows "decode_loop ([32, val_to_char ! (length b mod 4)] @ encode_loop b 0) (- 1, 0, 0, []) =
     Inr (int (length b mod 4), 0, 0, b @ replicate ((4 - length b mod 4) mod 4) 0)"
proof -
  have h: "length b mod 4 \<le> 4" by simp
  have ne: "int (length b mod 4) \<noteq> - 1" by simp
  have "decode_loop ([32, val_to_char ! (length b mod 4)] @ encode_loop b 0) (- 1, 0, 0, [])
      = decode_loop (encode_loop b 0 @ []) (int (length b mod 4), 0, 0, [])"
    by (simp add: decode_loop_skip [OF skipped_blank(1)] decode_loop_header [OF h]
        del: decode_loop.simps)
  also have "\<dots> = Inr (int (length b mod 4), 0, 0, b @ replicate ((4 - length b mod 4) mod 4) 0)"
    unfolding decode_encode_loop [OF ne] by simp
  finally show ?thesis .
qed


lemma base85r_decode_padded:
  assumes len: "length b \<le> 16361780"
    and enc: "base85r_encode b = Inr s"
    and pad: "padded s s'"
    and small: "length s' < 2147483648"
    and ok: "length s' = 2 \<or> 6 \<le> length s'"
  shows "base85r_decode s' = Inr b"
proof -
  have s: "s = [32, val_to_char ! (length b mod 4)] @ encode_loop b 0"
    using enc unfolding base85r_encode_value [OF len] by simp
  have i: "int32 (int (length s')) = int (length s')" using small by (subst int32_id) simp_all
  have tk: "take (nat (int (length s'))) s' = s'" by simp
  have loop: "decode_loop s' (- 1, 0, 0, []) =
      Inr (int (length b mod 4), 0, 0, b @ replicate ((4 - length b mod 4) mod 4) 0)"
    unfolding decode_loop_padded [OF pad] s by (rule decode_encoded [OF len])
  have chk: "\<not> (int (length s') < 6 \<and> int (length s') \<noteq> 2)" using ok by auto
  show ?thesis
  proof (cases "length b mod 4 = 0")
    case True
    then show ?thesis
      unfolding base85r_decode_def Let_def i tk loop using chk by (simp add: rb_str_resize_def)
  next
    case False
    then have r: "(4 - length b mod 4) mod 4 = 4 - length b mod 4" by simp
    have "int32 (int (length (b @ replicate (4 - length b mod 4) 0)) - (4 - int (length b mod 4)))
        = int (length b)"
      using len by (subst int32_id) (simp_all add: of_nat_diff)
    then show ?thesis
      unfolding base85r_decode_def Let_def i tk loop r using chk False
      by (simp add: rb_str_resize_def)
  qed
qed

lemma encoded_length:
  assumes "length b \<le> 16361780" "base85r_encode b = Inr s"
  shows "length s = 2 + 5 * ((length b + 3) div 4) + 2 * (length b div 56)"
  using assms(2) length_encode_loop [of 0 b] unfolding base85r_encode_value [OF assms(1)] by auto

text \<open>
  The round trip of the codec for every input whose buffer length is computed without
  overflow, and the two-byte encoding of the empty string.
\<close>

lemma base85r_roundtrip:
  assumes "length b \<le> 16361780"
  shows "\<exists>s. base85r_encode b = Inr s \<and> base85r_decode s = Inr b"
proof -
  let ?s = "[32, val_to_char ! (length b mod 4)] @ encode_loop b 0"
  have enc: "base85r_encode b = Inr ?s" by (rule base85r_encode_value [OF assms])
  have l: "length ?s = 2 + 5 * ((length b + 3) div 4) + 2 * (length b div 56)"
    by (rule encoded_length [OF assms enc])
  have "length ?s = 2 \<or> 6 \<le> length ?s"
    unfolding l by (cases "length b = 0") auto
  moreover have "length ?s < 2147483648"
  proof -
    have "5 * ((length b + 3) div 4) \<le> 5 * ((16361780 + 3) div 4)"
      using assms by (intro mult_le_mono2 div_le_mono) simp
    moreover have "2 * (length b div 56) \<le> 2 * (16361780 div 56)"
      using assms by (intro mult_le_mono2 div_le_mono)
    ultimately show ?thesis unfolding l by simp
  qed
  ultimately show ?thesis using base85r_decode_padded [OF assms enc padded_refl] enc by blast
qed



text \<open>
  From 16361781 bytes on, \<open>buf_len * 105\<close> in \<open>base85_encode_buf_len\<close> no longer
  fits 32 bits.
\<close>

lemma buf_len_overflow: "base85_encode_buf_len 16361781 = - 21474799"
proof -
  have a1: "int32 ((16361781 div 4) * 4) = 16361780" by (simp add: int32_def)
  have a2: "c_mod 16361781 4 = 1" by (simp add: c_mod_def c_div_def)
  have a3: "int32 (16361780 + 4) = 16361784" by (simp add: int32_def)
  have a4: "c_div (int32 (16361784 * 5)) 4 = 20452230" by (simp add: int32_def c_div_def)
  have a5: "int32 (20452230 * 105) = - 2147483146" by (simp add: int32_def)
  have a6: "c_div (- 2147483146) 100 = - 21474831" by (simp add: c_div_def)
  have a7: "int32 (- 21474831 + 32) = - 21474799" by (simp add: int32_def)
  have nz: "(1::int) \<noteq> 0" by simp
  show ?thesis
    unfolding base85_encode_buf_len_def Let_def a1 a2 if_P [OF nz] a3 a4 a5 a6 a7 by (rule refl)
qed

text \<open>
  Claim C7 says that decoding the encoding of \<open>b\<close> gives \<open>b\<close> for byte strings of
  every length. At a string of 16361781 bytes the buffer length the encoder computes is
  negative, \<open>rb_str_new\<close> raises, and \<open>base85r_encode\<close> returns no string to decode.
  (Up to 16361780 bytes the round trip holds, and the empty string is encoded in two
  bytes that decode to the empty string: \<open>base85r_roundtrip\<close>, \<open>base85r_empty\<close>.)
\<close>

theorem base85r_encode_overflow:
  "base85r_encode (replicate 16361781 0) = Inl (Raise ''negative string size (or size too big)'')"
proof -
  have i: "int32 (int (length (replicate 16361781 (0 :: byte)))) = 16361781"
    by (simp add: int32_def)
  show ?thesis
    unfolding base85r_encode_def Let_def i buf_len_overflow negative_size_def by simp
qed







section \<open>Properties of the schema registry\<close>

lemmas NT_defs = NT_NULL_def NT_UNKNOWN_def NT_NODE_def NT_VALUE_def NT_ID_def
  NT_INTEGER_def NT_LONG_def NT_ARGS_def NT_ENTRY_def NT_IDTABLE_def NT_MEMORY_def

lemmas VL_defs = VL_RAW_def VL_NODE_def VL_ID_def VL_GVAR_def VL_IDTABLE_def VL_ARGS_def
  VL_LIT_def

lemmas node_type_defs = NODE_SCOPE_def NODE_BLOCK_def NODE_IF_def NODE_CASE_def
  NODE_WHEN_def NODE_OPT_N_def NODE_WHILE_def NODE_UNTIL_def NODE_ITER_def NODE_FOR_def
  NODE_BREAK_def NODE_NEXT_def NODE_REDO_def NODE_RETRY_def NODE_BEGIN_def NODE_RESCUE_def
  NODE_RESBODY_def NODE_ENSURE_def NODE_AND_def NODE_OR_def NODE_MASGN_def NODE_LASGN_def
  NODE_DASGN_def NODE_DASGN_CURR_def NODE_GASGN_def NODE_IASGN_def NODE_IASGN2_def
  NODE_CDECL_def NODE_CVASGN_def NODE_CVDECL_def NODE_OP_ASGN1_def NODE_OP_ASGN2_def
  NODE_OP_ASGN_AND_def NODE_OP_ASGN_OR_def NODE_OP_CDECL_def NODE_CALL_def NODE_FCALL_def
  NODE_VCALL_def NODE_SUPER_def NODE_ZSUPER_def NODE_ARRAY_def NODE_ZARRAY_def
  NODE_VALUES_def NODE_HASH_def NODE_RETURN_def NODE_YIELD_def NODE_LVAR_def NODE_DVAR_def
  NODE_GVAR_def NODE_IVAR_def NODE_CONST_def NODE_CVAR_def NODE_NTH_REF_def
  NODE_BACK_REF_def NODE_MATCH_def NODE_MATCH2_def NODE_MATCH3_def NODE_LIT_def NODE_STR_def
  NODE_DSTR_def NODE_XSTR_def NODE_DXSTR_def NODE_EVSTR_def NODE_DREGX_def
  NODE_DREGX_ONCE_def NODE_ARGS_def NODE_ARGS_AUX_def NODE_OPT_ARG_def NODE_KW_ARG_def
  NODE_POSTARG_def NODE_ARGSCAT_def NODE_ARGSPUSH_def NODE_SPLAT_def NODE_TO_ARY_def
  NODE_BLOCK_ARG_def NODE_BLOCK_PASS_def NODE_DEFN_def NODE_DEFS_def NODE_ALIAS_def
  NODE_VALIAS_def NODE_UNDEF_def NODE_CLASS_def NODE_MODULE_def NODE_SCLASS_def
  NODE_COLON2_def NODE_COLON3_def NODE_CREF_def NODE_DOT2_def NODE_DOT3_def NODE_FLIP2_def
  NODE_FLIP3_def NODE_SELF_def NODE_NIL_def NODE_TRUE_def NODE_FALSE_def NODE_ERRINFO_def
  NODE_DEFINED_def NODE_POSTEXE_def NODE_ALLOCA_def NODE_BMETHOD_def NODE_MEMO_def
  NODE_IFUNC_def NODE_DSYM_def NODE_ATTRASGN_def NODE_PRELUDE_def NODE_LAMBDA_def
  NODE_LAST_def

lemma entries_checked:
  "list_all (\<lambda>row. case isval_switch (row ! 0) of None \<Rightarrow> True | Some isval \<Rightarrow> isval = isval_tbl_of row)
     (entries nodes_child_info)"
  by (simp add: entries_def nodes_child_info_def isval_switch_def isval_tbl_of_def node_type_defs NT_defs)

lemma entries_in_range:
  "list_all (\<lambda>row. 0 \<le> row ! 0 \<and> row ! 0 < 256) (entries nodes_child_info)"
  by (simp add: entries_def nodes_child_info_def node_type_defs)

lemma terminated: "list_ex (\<lambda>row. row ! 0 = - 1) nodes_child_info"
  by (simp add: nodes_child_info_def node_type_defs)

lemma isval_switch_length: "isval_switch t = Some isval \<Longrightarrow> length isval = 3"
  by (auto simp: isval_switch_def split: if_splits)

lemma isval_tbl_of_length: "length (isval_tbl_of row) = 3"
  by (simp add: isval_tbl_of_def)

lemma list3_eq: "length xs = 3 \<Longrightarrow> length ys = 3 \<Longrightarrow>
   xs = ys \<longleftrightarrow> xs ! 0 = ys ! 0 \<and> xs ! 1 = ys ! 1 \<and> xs ! 2 = (ys ! 2 :: int)"
  by (auto simp: list_eq_iff_nth_eq less_Suc_eq numeral_eq_Suc)

text \<open>The check of a row, in terms of the two classifications.\<close>

lemma check_nodes_child_info_iff:
  assumes "ruby_node_name NODE_LAMBDA = ''NODE_LAMBDA''"
  shows "check_nodes_child_info tbl ruby_node_name ipos =
     (case isval_switch (tbl ! ipos ! 0) of
        None \<Rightarrow> Inr ()
      | Some isval \<Rightarrow> if isval = isval_tbl_of (tbl ! ipos) then Inr ()
                       else Inl (Raise ''Bad node entry in the initial table''))"
proof (cases "isval_switch (tbl ! ipos ! 0)")
  case None
  then show ?thesis using assms by (simp add: check_nodes_child_info_def)
next
  case (Some isval)
  note eq = list3_eq [OF isval_switch_length [OF Some] isval_tbl_of_length [of "tbl ! ipos"]]
  show ?thesis using assms Some by (auto simp: check_nodes_child_info_def Let_def eq)
qed

lemma check_loop_drop:
  assumes "ruby_node_name NODE_LAMBDA = ''NODE_LAMBDA''" "ipos \<le> length tbl"
  shows "check_loop tbl ruby_node_name ipos (drop ipos tbl) =
     (if list_all (\<lambda>row. case isval_switch (row ! 0) of None \<Rightarrow> True
                          | Some isval \<Rightarrow> isval = isval_tbl_of row) (entries (drop ipos tbl))
      then (if list_ex (\<lambda>row. row ! 0 = - 1) (drop ipos tbl) then Inr ()
            else Inl (Undefined ''nodes_child_info read past its end''))
      else Inl (Raise ''Bad node entry in the initial table''))"
  using assms(2)
proof (induction "length tbl - ipos" arbitrary: ipos)
  case 0
  then show ?case by (simp add: entries_def)
next
  case (Suc n)
  then have lt: "ipos < length tbl" by simp
  then have d: "drop ipos tbl = tbl ! ipos # drop (Suc ipos) tbl"
    by (simp add: Cons_nth_drop_Suc)
  have ih: "check_loop tbl ruby_node_name (Suc ipos) (drop (Suc ipos) tbl) =
     (if list_all (\<lambda>row. case isval_switch (row ! 0) of None \<Rightarrow> True
                          | Some isval \<Rightarrow> isval = isval_tbl_of row) (entries (drop (Suc ipos) tbl))
      then (if list_ex (\<lambda>row. row ! 0 = - 1) (drop (Suc ipos) tbl) then Inr ()
            else Inl (Undefined ''nodes_child_info read past its end''))
      else Inl (Raise ''Bad node entry in the initial table''))"
    using Suc.hyps(1) [of "Suc ipos"] Suc.hyps(2) lt by simp
  show ?case
    unfolding d
    using assms(1)
    by (simp add: check_nodes_child_info_iff [where ruby_node_name = ruby_node_name] ih entries_def
        split: option.splits)
qed

lemma copy_loop_returns:
  assumes "list_all (\<lambda>row. 0 \<le> row ! 0 \<and> row ! 0 * 3 + 3 \<le> int (length ctbl)) (entries tbl)"
    and "list_ex (\<lambda>row. row ! 0 = - 1) tbl"
  shows "\<exists>ctbl'. copy_loop tbl ctbl = Inr ctbl' \<and> length ctbl' = length ctbl"
  using assms
proof (induction tbl arbitrary: ctbl)
  case Nil
  then show ?case by simp
next
  case (Cons row tbl)
  show ?case
  proof (cases "row ! 0 = - 1")
    case True
    then show ?thesis by simp
  next
    case False
    let ?c = "ctbl [nat (row ! 0 * 3) := row ! 1, nat (row ! 0 * 3) + 1 := row ! 2,
                    nat (row ! 0 * 3) + 2 := row ! 3]"
    have len: "length ?c = length ctbl" by simp
    from Cons.prems False have
      "list_all (\<lambda>row. 0 \<le> row ! 0 \<and> row ! 0 * 3 + 3 \<le> int (length ?c)) (entries tbl)"
      "list_ex (\<lambda>row. row ! 0 = - 1) tbl"
      and ok: "0 \<le> row ! 0" "row ! 0 * 3 + 3 \<le> int (length ctbl)"
      by (simp_all add: entries_def)
    from Cons.IH [OF this(1,2)] obtain c' where "copy_loop tbl ?c = Inr c'" "length c' = length ctbl"
      by auto
    then show ?thesis using False ok by (simp add: Let_def)
  qed
qed

lemma init_nodes_table_returns:
  assumes "ruby_node_name NODE_LAMBDA = ''NODE_LAMBDA''"
  shows "\<exists>ctbl. init_nodes_table nodes_child_info ruby_node_name NODES_CTBL_SIZE = Inr ctbl
           \<and> length ctbl = 768"
proof -
  have chk: "check_loop nodes_child_info ruby_node_name 0 nodes_child_info = Inr ()"
    using check_loop_drop [where ruby_node_name = ruby_node_name, OF assms, of 0 nodes_child_info] entries_checked terminated by simp
  have "list_all (\<lambda>row. 0 \<le> row ! 0 \<and> row ! 0 * 3 + 3 \<le> int (length (replicate (NODES_CTBL_SIZE * 3) NT_UNKNOWN)))
     (entries nodes_child_info)"
    using entries_in_range by (auto simp: list_all_iff NODES_CTBL_SIZE_def)
  from copy_loop_returns [OF this terminated] show ?thesis
    by (auto simp: init_nodes_table_def chk NODES_CTBL_SIZE_def)
qed

lemma Init_nodemarshal_returns:
  assumes "init_nodes_table tbl ruby_node_name NODES_CTBL_SIZE = Inr ctbl"
  shows "returns (Init_nodemarshal tbl ruby_node_name)"
proof -
  from base85r_init_tables_spec obtain c2v where c: "base85r_init_tables = Inr c2v" by blast
  show ?thesis unfolding Init_nodemarshal_def assms c by (simp add: returns_def)
qed

text \<open>
  Claim C9, amended. When the interpreter names \<open>NODE_LAMBDA\<close> as the check expects,
  initialisation of the extension completes; for every entry of \<open>nodes_child_info\<close> whose
  node type the reference classification (the \<open>switch\<close>) lists, the slots the table types
  as \<open>NT_NODE\<close> or \<open>NT_VALUE\<close> are the slots that classification gives; and in any
  table, an entry of a listed node type whose two classifications differ makes
  initialisation raise, so that no method of the class is ever defined. Entries of node
  types the \<open>switch\<close> does not list are not checked.
\<close>

theorem schema_self_check:
  assumes "ruby_node_name NODE_LAMBDA = ''NODE_LAMBDA''"
  shows "returns (Init_nodemarshal nodes_child_info ruby_node_name)
     \<and> (\<forall>row isval. row \<in> set (entries nodes_child_info) \<and> isval_switch (row ! 0) = Some isval
            \<longrightarrow> isval_tbl_of row = isval)
     \<and> (\<forall>tbl row isval. row \<in> set (entries tbl) \<and> isval_switch (row ! 0) = Some isval
            \<and> isval_tbl_of row \<noteq> isval
            \<longrightarrow> Init_nodemarshal tbl ruby_node_name
                  = Inl (Raise ''Bad node entry in the initial table''))"
proof (intro conjI allI impI)
  from init_nodes_table_returns [where ruby_node_name = ruby_node_name, OF assms]
  show "returns (Init_nodemarshal nodes_child_info ruby_node_name)"
    by (auto intro: Init_nodemarshal_returns)
next
  fix row isval
  assume "row \<in> set (entries nodes_child_info) \<and> isval_switch (row ! 0) = Some isval"
  with entries_checked show "isval_tbl_of row = isval"
    by (auto simp: list_all_iff)
next
  fix tbl row isval
  assume a: "row \<in> set (entries tbl) \<and> isval_switch (row ! 0) = Some isval \<and> isval_tbl_of row \<noteq> isval"
  then have "\<not> list_all (\<lambda>row. case isval_switch (row ! 0) of None \<Rightarrow> True
                          | Some isval \<Rightarrow> isval = isval_tbl_of row) (entries tbl)"
    by (auto simp: list_all_iff intro!: bexI [of _ row])
  then have "check_loop tbl ruby_node_name 0 tbl = Inl (Raise ''Bad node entry in the initial table'')"
    using check_loop_drop [where ruby_node_name = ruby_node_name, OF assms, of 0 tbl] by simp
  then show "Init_nodemarshal tbl ruby_node_name = Inl (Raise ''Bad node entry in the initial table'')"
    by (simp add: Init_nodemarshal_def init_nodes_table_def)
qed

theorem schema_self_check_witness:
  "node_name_22 NODE_LAMBDA = ''NODE_LAMBDA''
   \<and> returns (Init_nodemarshal nodes_child_info node_name_22)
   \<and> isval_switch NODE_BLOCK = Some [1, 0, 1]
   \<and> isval_tbl_of [NODE_BLOCK, NT_NULL, NT_NULL, NT_NODE] = [0, 0, 1]
   \<and> Init_nodemarshal [[NODE_BLOCK, NT_NULL, NT_NULL, NT_NODE], [- 1, 0, 0, 0]] node_name_22
       = Inl (Raise ''Bad node entry in the initial table'')"
proof -
  have n: "node_name_22 NODE_LAMBDA = ''NODE_LAMBDA''" by (simp add: node_name_22_def)
  have s: "isval_switch NODE_BLOCK = Some [1, 0, 1]"
    by (simp add: isval_switch_def node_type_defs)
  have t: "isval_tbl_of [NODE_BLOCK, NT_NULL, NT_NULL, NT_NODE] = [0, 0, 1]"
    by (simp add: isval_tbl_of_def NT_defs)
  have e: "[NODE_BLOCK, NT_NULL, NT_NULL, NT_NODE]
      \<in> set (entries [[NODE_BLOCK, NT_NULL, NT_NULL, NT_NODE], [- 1, 0, 0, 0]])"
    by (simp add: entries_def node_type_defs)
  from schema_self_check [where ruby_node_name = node_name_22, OF n] have
    "returns (Init_nodemarshal nodes_child_info node_name_22)"
    and "[NODE_BLOCK, NT_NULL, NT_NULL, NT_NODE]
           \<in> set (entries [[NODE_BLOCK, NT_NULL, NT_NULL, NT_NODE], [- 1, 0, 0, 0]])
         \<and> isval_switch ([NODE_BLOCK, NT_NULL, NT_NULL, NT_NODE] ! 0) = Some [1, 0, 1]
         \<and> isval_tbl_of [NODE_BLOCK, NT_NULL, NT_NULL, NT_NODE] \<noteq> [1, 0, 1]
         \<longrightarrow> Init_nodemarshal [[NODE_BLOCK, NT_NULL, NT_NULL, NT_NODE], [- 1, 0, 0, 0]] node_name_22
             = Inl (Raise ''Bad node entry in the initial table'')"
    by blast+
  then show ?thesis using n s t e by simp
qed

text \<open>
  The claim as stated speaks of every entry. \<open>NODE_OP_ASGN2\<close> is an entry of the table
  that the reference classification does not list: a table that types all three of its
  slots as nodes and a table that types none of them so both initialise, so for this
  entry nothing is re-derived and no difference can abort.
\<close>

theorem schema_self_check_counterexample:
  "isval_switch NODE_OP_ASGN2 = None
   \<and> [NODE_OP_ASGN2, NT_NODE, NT_NODE, NT_NODE] \<in> set (entries nodes_child_info)
   \<and> isval_tbl_of [NODE_OP_ASGN2, NT_NODE, NT_NODE, NT_NODE]
       \<noteq> isval_tbl_of [NODE_OP_ASGN2, NT_ID, NT_ID, NT_ID]
   \<and> returns (Init_nodemarshal [[NODE_OP_ASGN2, NT_NODE, NT_NODE, NT_NODE], [- 1, 0, 0, 0]] node_name_22)
   \<and> returns (Init_nodemarshal [[NODE_OP_ASGN2, NT_ID, NT_ID, NT_ID], [- 1, 0, 0, 0]] node_name_22)"
proof -
  have a: "isval_switch NODE_OP_ASGN2 = None"
    by (simp add: isval_switch_def node_type_defs)
  have b: "[NODE_OP_ASGN2, NT_NODE, NT_NODE, NT_NODE] \<in> set (entries nodes_child_info)"
    by (simp add: entries_def nodes_child_info_def node_type_defs NT_defs)
  have c: "isval_tbl_of [NODE_OP_ASGN2, NT_NODE, NT_NODE, NT_NODE]
       \<noteq> isval_tbl_of [NODE_OP_ASGN2, NT_ID, NT_ID, NT_ID]"
    by (simp add: isval_tbl_of_def NT_defs)
  have n: "node_name_22 NODE_LAMBDA = ''NODE_LAMBDA''" by (simp add: node_name_22_def)
  have d: "returns (Init_nodemarshal [[NODE_OP_ASGN2, x, y, z], [- 1, 0, 0, 0]] node_name_22)" for x y z
  proof -
    have "init_nodes_table [[NODE_OP_ASGN2, x, y, z], [- 1, 0, 0, 0]] node_name_22 NODES_CTBL_SIZE
        = Inr ((replicate 768 NT_UNKNOWN) [93 := x, 94 := y, 95 := z])"
      using a by (simp add: init_nodes_table_def check_nodes_child_info_def n
          NODES_CTBL_SIZE_def NODE_OP_ASGN2_def Let_def)
    then show ?thesis by (rule Init_nodemarshal_returns)
  qed
  from a b c d show ?thesis by blast
qed


section \<open>Properties of the node dump\<close>

subsection \<open>Values and their bytes\<close>

lemma value_to_bin_loop_eq:
  "value_to_bin_loop is val buf =
     (if buf \<noteq> [] then buf @ map (byte_of val) is
      else dropWhile (\<lambda>b. b = 0) (map (byte_of val) is))"
  by (induction "is" arbitrary: buf) (auto simp add: byte_of_def Let_def)

lemma value_to_bin_eq: "value_to_bin val = dropWhile (\<lambda>b. b = 0) (bytes8 val)"
  unfolding value_to_bin_def value_to_bin_loop_eq bytes8_def by simp

lemma length_bytes8: "length (bytes8 val) = 8"
  by (simp add: bytes8_def)

lemma value_to_bin_length: "length (value_to_bin val) \<le> 8"
  unfolding value_to_bin_eq
  using length_dropWhile_le [of "\<lambda>b. b = 0" "bytes8 val"] by (simp only: length_bytes8)

lemma bin_to_value_loop_dropWhile:
  "bin_to_value_loop (dropWhile (\<lambda>b. b = 0) buf) val = bin_to_value_loop buf val"
  by (induction buf arbitrary: val) auto

lemma mask8: "(255 :: VALUE) = mask 8"
  by (simp add: mask_eq_exp_minus_1)

lemma ucast_byte_of: "(ucast (byte_of val i) :: VALUE) = take_bit 8 (drop_bit (i * 8) val)"
  unfolding byte_of_def mask8
  apply (rule bit_word_eqI)
  apply (auto simp add: bit_simps)
  done

lemma bytes_upto:
  "bin_to_value_loop (map (byte_of val) (rev [0..<k])) acc = acc OR take_bit (8 * k) val"
proof (induction k arbitrary: acc)
  case 0
  then show ?case by simp
next
  case (Suc k)
  have step: "push_bit (k * 8) (take_bit 8 (drop_bit (k * 8) val)) OR take_bit (8 * k) val
      = take_bit (8 * Suc k) val"
    apply (rule bit_word_eqI)
    apply (auto simp add: bit_simps)
    done
  have "bin_to_value_loop (map (byte_of val) (rev [0..<Suc k])) acc
      = bin_to_value_loop (map (byte_of val) (rev [0..<k]))
          (acc OR push_bit (k * 8) (take_bit 8 (drop_bit (k * 8) val)))"
    by (simp add: ucast_byte_of)
  also have "\<dots> = acc OR take_bit (8 * Suc k) val"
    unfolding Suc.IH by (simp only: or.assoc step)
  finally show ?case .
qed

lemma rev_upt8: "rev [0..<8] = [7, 6, 5, 4, 3, 2, 1, 0]"
  by (simp add: upt_rec)

lemma bytes_all: "bin_to_value_loop (bytes8 val) 0 = val"
proof -
  have "take_bit 64 val = val" by (rule take_bit_word_eq_self) simp
  then show ?thesis unfolding bytes8_def rev_upt8 [symmetric] bytes_upto by simp
qed

lemma bin_to_value_value_to_bin: "bin_to_value (value_to_bin val) = Inr val"
proof -
  have "\<not> 8 < length (value_to_bin val)" using value_to_bin_length [of val] by simp
  then show ?thesis
    unfolding bin_to_value_def
    by (simp only: if_False value_to_bin_eq bin_to_value_loop_dropWhile bytes_all)
qed

subsection \<open>The byte of \<open>rtypes\<close>\<close>

lemma nibble_low:
  fixes v len :: nat
  assumes "v < 16"
  shows "(of_nat v OR push_bit 4 (of_nat len) :: byte) AND 15 = of_nat v"
proof -
  have v: "v = take_bit 4 v" using assms by (simp add: take_bit_nat_eq_self)
  have m: "(15 :: byte) = mask 4" by (simp add: mask_eq_exp_minus_1)
  show ?thesis
    apply (subst (1 2) v)
    unfolding m
    apply (rule bit_word_eqI)
    apply (auto simp add: bit_simps)
    done
qed

lemma nibble_high:
  fixes v len :: nat
  assumes "v < 16" "len < 16"
  shows "drop_bit 4 ((of_nat v OR push_bit 4 (of_nat len) :: byte) AND 240) = of_nat len"
proof -
  have v: "v = take_bit 4 v" using assms by (simp add: take_bit_nat_eq_self)
  have l: "len = take_bit 4 len" using assms by (simp add: take_bit_nat_eq_self)
  have m: "(240 :: byte) = push_bit 4 (mask 4)" by (simp add: mask_eq_exp_minus_1)
  show ?thesis
    apply (subst v)
    apply (subst (1 2) l)
    unfolding m
    apply (rule bit_word_eqI)
    apply (auto simp add: bit_simps)
    done
qed

lemma unat_small: "len < 16 \<Longrightarrow> unat (of_nat len :: byte) = len"
  by (simp add: unat_of_nat)

lemma uint_small: "v < 16 \<Longrightarrow> uint (of_nat v :: byte) = int v"
  by (simp add: uint_nat unat_of_nat)

lemma rtype_word:
  fixes v len :: nat
  shows "(word_of_int (int v OR push_bit 4 (int len)) :: byte) = of_nat v OR push_bit 4 (of_nat len)"
  by (simp add: of_int_or_eq push_bit_of_nat)

lemma rtype_byte:
  fixes vl :: int and len :: nat
  assumes "0 \<le> vl" "vl < 16" "len \<le> 8"
  shows "val_len (word_of_int (vl OR push_bit 4 (int len))) = len"
    and "uint ((word_of_int (vl OR push_bit 4 (int len)) :: byte) AND 15) = vl"
proof -
  define v where "v = nat vl"
  have vl: "vl = int v" and v16: "v < 16" using assms by (simp_all add: v_def)
  have l16: "len < 16" using assms by simp
  show "val_len (word_of_int (vl OR push_bit 4 (int len))) = len"
    by (simp only: vl val_len_def rtype_word nibble_high [OF v16 l16] unat_small [OF l16])
  show "uint ((word_of_int (vl OR push_bit 4 (int len)) :: byte) AND 15) = vl"
    by (simp only: vl rtype_word nibble_low [OF v16] uint_small [OF v16])
qed


lemma DUMP_RAW_VALUE_read:
  assumes "0 \<le> vl" "vl < 16"
  shows "val_len (word_of_int (fst (DUMP_RAW_VALUE vl x))) = length (snd (DUMP_RAW_VALUE vl x))"
    and "uint ((word_of_int (fst (DUMP_RAW_VALUE vl x)) :: byte) AND 15) = vl"
    and "snd (DUMP_RAW_VALUE vl x) = value_to_bin x"
  using rtype_byte [OF assms value_to_bin_length [of x]]
  by (simp_all add: DUMP_RAW_VALUE_def Let_def)

lemma dump_node_value_shape:
  assumes "dump_node_value rb info node type val child_id = Inr res"
  shows "\<exists>vl x. res = DUMP_RAW_VALUE vl x \<and> vl \<in> VL_codes"
  using assms unfolding dump_node_value_def dump_table_value_def VL_codes_def Let_def
  by (auto split: if_splits sum.splits option.splits)

lemma VL_codes_range: "vl \<in> VL_codes \<Longrightarrow> 0 \<le> vl \<and> vl < 16"
  by (auto simp add: VL_codes_def VL_defs)

subsection \<open>Reading back the record of a node\<close>

lemma fetch_mid: "fetch (pre @ xs @ post) (length pre) (length xs) = Inr xs"
  by (simp add: fetch_def)

lemma read_value_mid:
  "read_value (pre @ value_to_bin x @ post) (length pre) (length (value_to_bin x))
     = Inr (x, length pre + length (value_to_bin x))"
  using value_to_bin_length [of x]
  by (simp add: read_value_def fetch_mid bin_to_value_value_to_bin)


lemma unat_length_value_to_bin: "unat (of_nat (length (value_to_bin f)) :: byte) = length (value_to_bin f)"
  using value_to_bin_length [of f] by (simp add: unat_of_nat)

lemma read_node_record:
  assumes c0: "0 \<le> vl0 \<and> vl0 < 16" and c1: "0 \<le> vl1 \<and> vl1 < 16" and c2: "0 \<le> vl2 \<and> vl2 < 16"
    and hdr: "hdr = [word_of_int (fst (DUMP_RAW_VALUE vl0 x0)), word_of_int (fst (DUMP_RAW_VALUE vl1 x1)),
                     word_of_int (fst (DUMP_RAW_VALUE vl2 x2)), of_nat (length (value_to_bin f))]"
    and str: "str = pre @ (hdr @ value_to_bin f @ value_to_bin x0 @ value_to_bin x1 @ value_to_bin x2) @ post"
  shows "read_node str (length pre)
     = Inr ([vl0, vl1, vl2], f, [x0, x1, x2],
            length pre + length (hdr @ value_to_bin f @ value_to_bin x0 @ value_to_bin x1 @ value_to_bin x2))"
proof -
  let ?fb = "value_to_bin f" and ?b0 = "value_to_bin x0" and ?b1 = "value_to_bin x1"
    and ?b2 = "value_to_bin x2"
  have lh: "length hdr = 4" by (simp add: hdr)
  have f0: "fetch str (length pre) 4 = Inr hdr"
    using fetch_mid [of pre hdr "?fb @ ?b0 @ ?b1 @ ?b2 @ post"] by (simp add: str lh)
  have h3: "unat (hdr ! 3) = length ?fb" by (simp add: hdr unat_length_value_to_bin)
  have h0: "val_len (hdr ! 0) = length ?b0" "uint (hdr ! 0 AND 15) = vl0"
    using DUMP_RAW_VALUE_read [of vl0 x0] c0 by (simp_all add: hdr)
  have h1: "val_len (hdr ! Suc 0) = length ?b1" "uint (hdr ! Suc 0 AND 15) = vl1"
    using DUMP_RAW_VALUE_read [of vl1 x1] c1 by (simp_all add: hdr)
  have h2: "val_len (hdr ! 2) = length ?b2" "uint (hdr ! 2 AND 15) = vl2"
    using DUMP_RAW_VALUE_read [of vl2 x2] c2 by (simp_all add: hdr)
  have r3: "read_value str (length pre + 4) (length ?fb) = Inr (f, length pre + 4 + length ?fb)"
    using read_value_mid [of "pre @ hdr" f "?b0 @ ?b1 @ ?b2 @ post"] by (simp add: str lh)
  have r0: "read_value str (length pre + 4 + length ?fb) (length ?b0)
      = Inr (x0, length pre + 4 + length ?fb + length ?b0)"
    using read_value_mid [of "pre @ hdr @ ?fb" x0 "?b1 @ ?b2 @ post"] by (simp add: str lh add.assoc)
  have r1: "read_value str (length pre + 4 + length ?fb + length ?b0) (length ?b1)
      = Inr (x1, length pre + 4 + length ?fb + length ?b0 + length ?b1)"
    using read_value_mid [of "pre @ hdr @ ?fb @ ?b0" x1 "?b2 @ post"] by (simp add: str lh add.assoc)
  have r2: "read_value str (length pre + 4 + length ?fb + length ?b0 + length ?b1) (length ?b2)
      = Inr (x2, length pre + 4 + length ?fb + length ?b0 + length ?b1 + length ?b2)"
    using read_value_mid [of "pre @ hdr @ ?fb @ ?b0 @ ?b1" x2 "post"] by (simp add: str lh add.assoc)
  have t3: "map (\<lambda>r. uint (r AND 15)) (take 3 hdr) = [vl0, vl1, vl2]"
    using h0(2) h1(2) h2(2) by (simp add: hdr)
  have le: "\<not> length str < length pre + 4 + length ?fb + length ?b0 + length ?b1 + length ?b2"
    by (simp add: str lh)
  show ?thesis
    unfolding read_node_def
    using le by (simp add: f0 h3 h0(1) h1(1) h2(1) r3 r0 r1 r2 t3 lh)
qed


lemma dump_node_read:
  assumes "dump_node rb nodes_ctbl info n = Inr rec"
  shows "\<exists>vl0 x0 vl1 x1 vl2 x2.
      dump_node_value rb info n (slot_types nodes_ctbl info n ! 0) (u1 n) 1 = Inr (DUMP_RAW_VALUE vl0 x0)
    \<and> dump_node_value rb info n (slot_types nodes_ctbl info n ! 1) (u2 n) 2 = Inr (DUMP_RAW_VALUE vl1 x1)
    \<and> dump_node_value rb info n (slot_types nodes_ctbl info n ! 2) (u3 n) 3 = Inr (DUMP_RAW_VALUE vl2 x2)
    \<and> vl0 \<in> VL_codes \<and> vl1 \<in> VL_codes \<and> vl2 \<in> VL_codes
    \<and> (\<forall>pre post. read_node (pre @ rec @ post) (length pre)
           = Inr ([vl0, vl1, vl2], drop_bit 5 (flags n), [x0, x1, x2], length pre + length rec))"
proof -
  let ?ut = "slot_types nodes_ctbl info n"
  from assms obtain r0 b0 r1 b1 r2 b2 where
    d0: "dump_node_value rb info n (?ut ! 0) (u1 n) 1 = Inr (r0, b0)" and
    d1: "dump_node_value rb info n (?ut ! 1) (u2 n) 2 = Inr (r1, b1)" and
    d2: "dump_node_value rb info n (?ut ! 2) (u3 n) 3 = Inr (r2, b2)" and
    rec: "rec = [word_of_int r0, word_of_int r1, word_of_int r2,
                 of_nat (length (value_to_bin (drop_bit 5 (flags n))))]
               @ value_to_bin (drop_bit 5 (flags n)) @ b0 @ b1 @ b2"
    unfolding dump_node_def Let_def by (auto split: if_splits sum.splits prod.splits)
  from dump_node_value_shape [OF d0] obtain vl0 x0 where
    s0: "(r0, b0) = DUMP_RAW_VALUE vl0 x0" "vl0 \<in> VL_codes" by blast
  from dump_node_value_shape [OF d1] obtain vl1 x1 where
    s1: "(r1, b1) = DUMP_RAW_VALUE vl1 x1" "vl1 \<in> VL_codes" by blast
  from dump_node_value_shape [OF d2] obtain vl2 x2 where
    s2: "(r2, b2) = DUMP_RAW_VALUE vl2 x2" "vl2 \<in> VL_codes" by blast
  have b: "b0 = value_to_bin x0" "b1 = value_to_bin x1" "b2 = value_to_bin x2"
    and r: "r0 = fst (DUMP_RAW_VALUE vl0 x0)" "r1 = fst (DUMP_RAW_VALUE vl1 x1)"
      "r2 = fst (DUMP_RAW_VALUE vl2 x2)"
    using s0(1) s1(1) s2(1) by (simp_all add: DUMP_RAW_VALUE_def Let_def)
  have "read_node (pre @ rec @ post) (length pre)
      = Inr ([vl0, vl1, vl2], drop_bit 5 (flags n), [x0, x1, x2], length pre + length rec)"
    for pre post
    unfolding rec b r
    by (rule read_node_record [OF VL_codes_range [OF s0(2)] VL_codes_range [OF s1(2)]
          VL_codes_range [OF s2(2)] refl refl])
  then show ?thesis using d0 d1 d2 s0 s1 s2 by auto
qed


subsection \<open>The two loops\<close>

lemma load_node_pos:
  assumes "load_node rb relocs str p = Inr (node, p')"
  shows "\<exists>rtypes fl u. read_node str p = Inr (rtypes, fl, u, p')"
  using assms unfolding load_node_def Let_def
  by (auto split: sum.splits prod.splits)

lemma load_loop_bounds:
  assumes "load_loop rb relocs str is p mem = Inr mem'"
  shows "\<forall>i \<in> set is. i < length (nodes_adr relocs)"
  using assms
  by (induction "is" arbitrary: p mem)
     (auto split: sum.splits prod.splits if_splits option.splits)

lemma load_loop_other:
  assumes "load_loop rb relocs str is p mem = Inr mem'"
    and "\<forall>i \<in> set is. nodes_adr relocs ! i \<noteq> a"
  shows "mem' a = mem a"
  using assms
proof (induction "is" arbitrary: p mem)
  case Nil
  then show ?case by simp
next
  case (Cons i rest)
  from Cons.prems(1) obtain node p' where
    rest: "load_loop rb relocs str rest p' (mem (nodes_adr relocs ! i \<mapsto> node)) = Inr mem'"
    by (auto split: sum.splits prod.splits if_splits option.splits)
  from Cons.IH [OF rest] Cons.prems(2) show ?case by auto
qed

lemma load_loop_dump:
  assumes "dump_nodes_loop rb mem nodes_ctbl info ks = Inr bin"
    and "load_loop rb' relocs (pre @ bin @ post) [k..<k + m] (length pre) mem1 = Inr mem'"
    and "distinct (nodes_adr relocs)"
    and "j < m" "j < length ks"
  shows "\<exists>adr n rec pre' post' n'.
       str_to_value (ks ! j) = Inr adr \<and> mem adr = Some n
     \<and> dump_node rb nodes_ctbl info n = Inr rec \<and> pre @ bin @ post = pre' @ rec @ post'
     \<and> load_node rb' relocs (pre' @ rec @ post') (length pre') = Inr (n', length pre' + length rec)
     \<and> mem' (nodes_adr relocs ! (k + j)) = Some n'"
  using assms
proof (induction ks arbitrary: k m pre bin mem1 j)
  case Nil
  then show ?case by simp
next
  case (Cons key rest)
  from Cons.prems(1) obtain adr n rec recs where
    key: "str_to_value key = Inr adr" "mem adr = Some n" "dump_node rb nodes_ctbl info n = Inr rec"
    and recs: "dump_nodes_loop rb mem nodes_ctbl info rest = Inr recs" and bin: "bin = rec @ recs"
    by (auto split: sum.splits option.splits)
  let ?str = "pre @ bin @ post"
  from Cons.prems(4) obtain m' where m: "m = Suc m'" by (cases m) auto
  have upt: "[k..<k + m] = k # [Suc k..<Suc k + m']" by (simp add: m upt_conv_Cons)
  from Cons.prems(2) [unfolded upt] obtain node p' where
    ln: "load_node rb' relocs ?str (length pre) = Inr (node, p')" and
    kl: "k < length (nodes_adr relocs)" and
    rest: "load_loop rb' relocs ?str [Suc k..<Suc k + m'] p'
             (mem1 (nodes_adr relocs ! k \<mapsto> node)) = Inr mem'"
    by (auto split: sum.splits prod.splits if_splits option.splits)
  from dump_node_read [OF key(3)] obtain rt fl u where
    rd: "read_node (pre @ rec @ (recs @ post)) (length pre) = Inr (rt, fl, u, length pre + length rec)"
    by blast
  from load_node_pos [OF ln] rd have p': "p' = length pre + length rec" by (simp add: bin)
  show ?case
  proof (cases j)
    case 0
    have "\<forall>i \<in> set [Suc k..<Suc k + m']. nodes_adr relocs ! i \<noteq> nodes_adr relocs ! k"
    proof
      fix i assume i: "i \<in> set [Suc k..<Suc k + m']"
      then have "i < length (nodes_adr relocs)" using load_loop_bounds [OF rest] by blast
      moreover have "i \<noteq> k" using i by auto
      ultimately show "nodes_adr relocs ! i \<noteq> nodes_adr relocs ! k"
        using kl Cons.prems(3) by (simp add: nth_eq_iff_index_eq)
    qed
    from load_loop_other [OF rest this] have "mem' (nodes_adr relocs ! k) = Some node" by simp
    moreover have "?str = pre @ rec @ (recs @ post)" by (simp add: bin)
    ultimately show ?thesis using key ln p' 0 bin by (intro exI [of _ adr] exI [of _ n] exI [of _ rec] exI [of _ pre] exI [of _ "recs @ post"] exI [of _ node]) simp
  next
    case (Suc j')
    have rest': "load_loop rb' relocs ((pre @ rec) @ recs @ post) [Suc k..<Suc k + m']
        (length (pre @ rec)) (mem1 (nodes_adr relocs ! k \<mapsto> node)) = Inr mem'"
      using rest by (simp add: bin p')
    have j': "j' < m'" "j' < length rest" using Cons.prems(4,5) by (simp_all add: m Suc)
    from Cons.IH [OF recs rest' Cons.prems(3) j']
    show ?thesis by (simp add: Suc bin)
  qed
qed


lemma DUMP_RAW_VALUE_inject:
  assumes "DUMP_RAW_VALUE vl x = DUMP_RAW_VALUE vl' x'" "vl \<in> VL_codes" "vl' \<in> VL_codes"
  shows "vl = vl' \<and> x = x'"
proof -
  from VL_codes_range [OF assms(2)] have r: "0 \<le> vl" "vl < 16" by simp_all
  from VL_codes_range [OF assms(3)] have r': "0 \<le> vl'" "vl' < 16" by simp_all
  have "value_to_bin x = value_to_bin x'"
    using DUMP_RAW_VALUE_read(3) [OF r, of x] DUMP_RAW_VALUE_read(3) [OF r', of x'] assms(1) by simp
  then have "bin_to_value (value_to_bin x) = bin_to_value (value_to_bin x')" by simp
  then have "x = x'" by (simp add: bin_to_value_value_to_bin)
  moreover have "vl = vl'"
    using DUMP_RAW_VALUE_read(2) [OF r, of x] DUMP_RAW_VALUE_read(2) [OF r', of x'] assms(1) by simp
  ultimately show ?thesis by simp
qed

lemma decoded_node:
  assumes dump: "dump_nodes rb mem nodes_ctbl info spare = Inr str"
    and load: "load_nodes_from_str rb' str relocs mem0 = Inr mem'"
    and dist: "distinct (nodes_adr relocs)"
    and i: "i < length (vals (nodes info))" "int i < nodes_len relocs"
    and adr: "str_to_value (fst (vals (nodes info) ! i)) = Inr adr" and n: "mem adr = Some n"
  shows "\<exists>n' vl0 x0 vl1 x1 vl2 x2.
      mem' (nodes_adr relocs ! i) = Some n'
    \<and> dump_node_value rb info n (slot_types nodes_ctbl info n ! 0) (u1 n) 1 = Inr (DUMP_RAW_VALUE vl0 x0)
    \<and> dump_node_value rb info n (slot_types nodes_ctbl info n ! 1) (u2 n) 2 = Inr (DUMP_RAW_VALUE vl1 x1)
    \<and> dump_node_value rb info n (slot_types nodes_ctbl info n ! 2) (u3 n) 3 = Inr (DUMP_RAW_VALUE vl2 x2)
    \<and> vl0 \<in> VL_codes \<and> vl1 \<in> VL_codes \<and> vl2 \<in> VL_codes
    \<and> resolve_slot rb' relocs vl0 x0 = Inr (u1 n')
    \<and> resolve_slot rb' relocs vl1 x1 = Inr (u2 n')
    \<and> resolve_slot rb' relocs vl2 x2 = Inr (u3 n')
    \<and> flags n' = push_bit 5 (if RESET_GC_FLAGS rb' then drop_bit 5 (flags n) AND NOT 3
                              else drop_bit 5 (flags n)) OR word_of_int T_NODE"
proof -
  let ?ks = "map fst (vals (nodes info))"
  from dump obtain bin where
    bin: "dump_nodes_loop rb mem nodes_ctbl info ?ks = Inr bin" and str: "str = bin @ [spare]"
    unfolding dump_nodes_def Let_def by (auto split: if_splits sum.splits)
  have l: "load_loop rb' relocs ([] @ bin @ [spare]) [0..<0 + nat (nodes_len relocs)] (length ([] :: byte list)) mem0
      = Inr mem'"
    using load by (simp add: load_nodes_from_str_def str)
  have j: "i < nat (nodes_len relocs)" "i < length ?ks" using i by simp_all
  from load_loop_dump [OF bin l dist j] obtain adr' m rec pre' post' n' where
    a: "str_to_value (?ks ! i) = Inr adr'" "mem adr' = Some m" and
    d: "dump_node rb nodes_ctbl info m = Inr rec" and
    ln: "load_node rb' relocs (pre' @ rec @ post') (length pre') = Inr (n', length pre' + length rec)" and
    m': "mem' (nodes_adr relocs ! i) = Some n'"
    by auto
  have "adr' = adr" using a(1) adr i(1) by simp
  then have mn: "m = n" using a(2) n by simp
  from dump_node_read [OF d [unfolded mn]] obtain vl0 x0 vl1 x1 vl2 x2 where
    dv: "dump_node_value rb info n (slot_types nodes_ctbl info n ! 0) (u1 n) 1 = Inr (DUMP_RAW_VALUE vl0 x0)"
      "dump_node_value rb info n (slot_types nodes_ctbl info n ! 1) (u2 n) 2 = Inr (DUMP_RAW_VALUE vl1 x1)"
      "dump_node_value rb info n (slot_types nodes_ctbl info n ! 2) (u3 n) 3 = Inr (DUMP_RAW_VALUE vl2 x2)"
      "vl0 \<in> VL_codes" "vl1 \<in> VL_codes" "vl2 \<in> VL_codes" and
    rd: "read_node (pre' @ rec @ post') (length pre')
           = Inr ([vl0, vl1, vl2], drop_bit 5 (flags n), [x0, x1, x2], length pre' + length rec)"
    by blast
  from ln have
    "resolve_slot rb' relocs vl0 x0 = Inr (u1 n') \<and> resolve_slot rb' relocs vl1 x1 = Inr (u2 n')
     \<and> resolve_slot rb' relocs vl2 x2 = Inr (u3 n')
     \<and> flags n' = push_bit 5 (if RESET_GC_FLAGS rb' then drop_bit 5 (flags n) AND NOT 3
                              else drop_bit 5 (flags n)) OR word_of_int T_NODE"
    unfolding load_node_def rd Let_def by (auto split: sum.splits)
  with m' dv show ?thesis by blast
qed


subsection \<open>A node encoded and decoded\<close>

lemma clear_low5: "push_bit 5 (drop_bit 5 (f :: VALUE)) = f AND NOT 31"
proof -
  have m: "(31 :: VALUE) = mask 5" by (simp add: mask_eq_exp_minus_1)
  show ?thesis
    unfolding m
    apply (rule bit_word_eqI)
    apply (auto simp add: bit_simps)
    done
qed

lemma clear_low7: "push_bit 5 (drop_bit 5 (f :: VALUE) AND NOT 3) = f AND NOT 127"
proof -
  have m: "(3 :: VALUE) = mask 2" "(127 :: VALUE) = mask 7" by (simp_all add: mask_eq_exp_minus_1)
  show ?thesis
    unfolding m
    apply (rule bit_word_eqI)
    apply (auto simp add: bit_simps)
    done
qed

lemma ex_str_to_value: "str_to_value (Str ''1000'') = Inr 4096"
  by (simp add: str_to_value_def hex_val_def hex_digits_def)

lemma ex_INT2FIX: "INT2FIX 3000 = Fixnum 3000"
  by (simp add: INT2FIX_def)

lemma ex_value_to_bin: "value_to_bin 824 = [3, 56]" "value_to_bin 1 = [1]" "value_to_bin 0 = []"
  by (simp_all add: value_to_bin_def)


lemma ex_slot_types:
  "slot_types ((replicate 768 NT_UNKNOWN) [309 := NT_NODE, 310 := NT_ID, 311 := NT_NODE])
      (\<lparr>syms = \<lparr>vals = [(Fixnum 3000, Str ''foo='')], ids = [(Fixnum 3000, 0)], pos = 1\<rparr>,
        lits = LeafTableInfo_init, idtabs = LeafTableInfo_init, args = LeafTableInfo_init,
        gentries = LeafTableInfo_init,
        nodes = \<lparr>vals = [(Str ''1000'', Str ''1000'')], ids = [(Str ''1000'', 0)], pos = 1\<rparr>\<rparr>)
      \<lparr>flags = 26396, nd_reserved = 0, u1 = 1, u2 = 3000, u3 = 0\<rparr> = [NT_NODE, NT_ID, NT_NODE]"
  by (simp add: slot_types_def nd_type_def NODE_TYPESHIFT_def NODE_TYPEMASK_def Let_def
      NODE_OP_ASGN2_def NODE_ARGS_AUX_def)

lemma ex_dump_node:
  "dump_node \<lparr>rb_type = \<lambda>v. T_NODE, RESET_GC_FLAGS = False\<rparr>
      ((replicate 768 NT_UNKNOWN) [309 := NT_NODE, 310 := NT_ID, 311 := NT_NODE])
      (\<lparr>syms = \<lparr>vals = [(Fixnum 3000, Str ''foo='')], ids = [(Fixnum 3000, 0)], pos = 1\<rparr>,
        lits = LeafTableInfo_init, idtabs = LeafTableInfo_init, args = LeafTableInfo_init,
        gentries = LeafTableInfo_init,
        nodes = \<lparr>vals = [(Str ''1000'', Str ''1000'')], ids = [(Str ''1000'', 0)], pos = 1\<rparr>\<rparr>)
      \<lparr>flags = 26396, nd_reserved = 0, u1 = 1, u2 = 3000, u3 = 0\<rparr> = Inr [16, 2, 0, 2, 3, 56, 1]"
  unfolding dump_node_def ex_slot_types Let_def
  by (simp add: dump_node_value_def dump_table_value_def DUMP_RAW_VALUE_def ex_value_to_bin
      ex_INT2FIX LeafTableInfo_keyToID_def rb_hash_aref_def nd_type_def NODE_TYPESHIFT_def
      NODE_TYPEMASK_def NODE_ATTRASGN_def NT_defs VL_defs)

lemma ex_dump:
  "dump_nodes \<lparr>rb_type = \<lambda>v. T_NODE, RESET_GC_FLAGS = False\<rparr> [4096 \<mapsto> \<lparr>flags = 26396, nd_reserved = 0, u1 = 1, u2 = 3000, u3 = 0\<rparr>]
      ((replicate 768 NT_UNKNOWN) [309 := NT_NODE, 310 := NT_ID, 311 := NT_NODE])
      (\<lparr>syms = \<lparr>vals = [(Fixnum 3000, Str ''foo='')], ids = [(Fixnum 3000, 0)], pos = 1\<rparr>,
        lits = LeafTableInfo_init, idtabs = LeafTableInfo_init, args = LeafTableInfo_init,
        gentries = LeafTableInfo_init,
        nodes = \<lparr>vals = [(Str ''1000'', Str ''1000'')], ids = [(Str ''1000'', 0)], pos = 1\<rparr>\<rparr>) 0 = Inr [16, 2, 0, 2, 3, 56, 1, 0]"
  unfolding dump_nodes_def Let_def
  by (simp add: ex_str_to_value ex_dump_node)

lemma ex_load:
  "load_nodes_from_str \<lparr>rb_type = \<lambda>v. T_NODE, RESET_GC_FLAGS = False\<rparr> [16, 2, 0, 2, 3, 56, 1, 0]
      \<lparr>syms_adr = [3000], syms_len = 1, lits_adr = [], lits_len = 0, idtbls_adr = [], idtbls_len = 0,
        gvars_adr = [], gvars_len = 0, nodes_adr = [8192], nodes_len = 1, args_adr = [], args_len = 0\<rparr>
      [(8192 :: VALUE) \<mapsto> \<lparr>flags = 28, nd_reserved = 0, u1 = 0, u2 = 0, u3 = 0\<rparr>]
   = Inr ([(8192 :: VALUE) \<mapsto> \<lparr>flags = 28, nd_reserved = 0, u1 = 0, u2 = 0, u3 = 0\<rparr>] (8192 \<mapsto> \<lparr>flags = 26396, nd_reserved = 0, u1 = 1, u2 = 3000, u3 = 0\<rparr>))"
  by (simp add: load_nodes_from_str_def load_node_def read_node_def fetch_def read_value_def
      bin_to_value_def val_len_def resolve_slot_def table_entry_def VL_defs T_NODE_def Let_def)


text \<open>
  Claim C10. Let \<open>dump_nodes\<close> return the string \<open>str\<close> and \<open>load_nodes_from_str\<close> load
  it into placeholders at distinct addresses, and let \<open>n\<close> be the node of the \<open>i\<close>-th key
  of the node table, encoded and decoded. Then the \<open>i\<close>-th placeholder holds a node whose
  flag word is the stored value (\<open>flags >> 5\<close> of \<open>n\<close>) shifted left by 5, or'ed with
  \<open>T_NODE\<close>: the flag word of \<open>n\<close> with its 5 lowest bits cleared, or'ed with \<open>T_NODE\<close>.
  Where \<open>RESET_GC_FLAGS\<close> is defined (Ruby 1.9), the two lowest bits of the stored value
  are cleared before the shift, so that the 7 lowest bits of the flag word are cleared.
\<close>

theorem node_flags_roundtrip:
  assumes "dump_nodes rb mem nodes_ctbl info spare = Inr str"
    and "load_nodes_from_str rb' str relocs mem0 = Inr mem'"
    and "distinct (nodes_adr relocs)"
    and "i < length (vals (nodes info))" and "int i < nodes_len relocs"
    and "str_to_value (fst (vals (nodes info) ! i)) = Inr adr" and "mem adr = Some n"
  shows "\<exists>n'. mem' (nodes_adr relocs ! i) = Some n'
       \<and> flags n' = push_bit 5 (if RESET_GC_FLAGS rb' then drop_bit 5 (flags n) AND NOT 3
                                 else drop_bit 5 (flags n)) OR word_of_int T_NODE
       \<and> (\<not> RESET_GC_FLAGS rb' \<longrightarrow> flags n' = (flags n AND NOT 31) OR word_of_int T_NODE)
       \<and> (RESET_GC_FLAGS rb' \<longrightarrow> flags n' = (flags n AND NOT 127) OR word_of_int T_NODE)"
proof -
  from decoded_node [OF assms] obtain n' where
    n': "mem' (nodes_adr relocs ! i) = Some n'" and
    f: "flags n' = push_bit 5 (if RESET_GC_FLAGS rb' then drop_bit 5 (flags n) AND NOT 3
                               else drop_bit 5 (flags n)) OR word_of_int T_NODE"
    by blast
  have "flags n' = (flags n AND NOT 31) OR word_of_int T_NODE" if "\<not> RESET_GC_FLAGS rb'"
  proof -
    from f that have "flags n' = push_bit 5 (drop_bit 5 (flags n)) OR word_of_int T_NODE"
      by (simp only: if_False)
    then show ?thesis by (simp only: clear_low5)
  qed
  moreover have "flags n' = (flags n AND NOT 127) OR word_of_int T_NODE" if "RESET_GC_FLAGS rb'"
  proof -
    from f that have "flags n' = push_bit 5 (drop_bit 5 (flags n) AND NOT 3) OR word_of_int T_NODE"
      by (simp only: if_True)
    then show ?thesis by (simp only: clear_low7)
  qed
  ultimately show ?thesis using n' f by blast
qed

theorem node_flags_roundtrip_witness:
  "\<exists>n'. ([(8192 :: VALUE) \<mapsto> \<lparr>flags = 28, nd_reserved = 0, u1 = 0, u2 = 0, u3 = 0\<rparr>] (8192 \<mapsto> \<lparr>flags = 26396, nd_reserved = 0, u1 = 1, u2 = 3000, u3 = 0\<rparr>)) 8192 = Some n'
     \<and> flags n' = (26396 AND NOT 31) OR word_of_int T_NODE"
proof -
  have "\<exists>n'. ([(8192 :: VALUE) \<mapsto> \<lparr>flags = 28, nd_reserved = 0, u1 = 0, u2 = 0, u3 = 0\<rparr>] (8192 \<mapsto> \<lparr>flags = 26396, nd_reserved = 0, u1 = 1, u2 = 3000, u3 = 0\<rparr>))
            (nodes_adr \<lparr>syms_adr = [3000], syms_len = 1, lits_adr = [], lits_len = 0, idtbls_adr = [], idtbls_len = 0,
        gvars_adr = [], gvars_len = 0, nodes_adr = [8192], nodes_len = 1, args_adr = [], args_len = 0\<rparr> ! 0) = Some n'
     \<and> flags n' = push_bit 5 (if RESET_GC_FLAGS \<lparr>rb_type = \<lambda>v. T_NODE, RESET_GC_FLAGS = False\<rparr>
                               then drop_bit 5 (flags \<lparr>flags = 26396, nd_reserved = 0, u1 = 1, u2 = 3000, u3 = 0\<rparr>) AND NOT 3
                               else drop_bit 5 (flags \<lparr>flags = 26396, nd_reserved = 0, u1 = 1, u2 = 3000, u3 = 0\<rparr>)) OR word_of_int T_NODE
     \<and> (\<not> RESET_GC_FLAGS \<lparr>rb_type = \<lambda>v. T_NODE, RESET_GC_FLAGS = False\<rparr> \<longrightarrow>
          flags n' = (flags \<lparr>flags = 26396, nd_reserved = 0, u1 = 1, u2 = 3000, u3 = 0\<rparr> AND NOT 31) OR word_of_int T_NODE)
     \<and> (RESET_GC_FLAGS \<lparr>rb_type = \<lambda>v. T_NODE, RESET_GC_FLAGS = False\<rparr> \<longrightarrow>
          flags n' = (flags \<lparr>flags = 26396, nd_reserved = 0, u1 = 1, u2 = 3000, u3 = 0\<rparr> AND NOT 127) OR word_of_int T_NODE)"
    by (rule node_flags_roundtrip [OF ex_dump ex_load]) (simp_all add: ex_str_to_value)
  then show ?thesis by simp
qed

text \<open>
  Claim C6. A slot dumped under the type \<open>NT_NODE\<close> that holds 0 is written as a raw
  value (\<open>VL_RAW\<close>, no bytes), and so is the value 1 in child 1 of a \<open>NODE_ATTRASGN\<close> node
  (\<open>VL_RAW\<close>, one byte); the decoder leaves a \<open>VL_RAW\<close> value as it is. So, for the node
  \<open>n\<close> of the \<open>i\<close>-th key of the node table, encoded by \<open>dump_nodes\<close> and decoded by
  \<open>load_nodes_from_str\<close>: each slot that \<open>dump_nodes\<close> dumps as a node reference and that
  holds 0 holds 0 in the decoded node, and the first slot of a \<open>NODE_ATTRASGN\<close> node that
  holds 1 holds 1 in the decoded node.
\<close>

theorem sentinel_slots:
  assumes "dump_nodes rb mem nodes_ctbl info spare = Inr str"
    and "load_nodes_from_str rb' str relocs mem0 = Inr mem'"
    and "distinct (nodes_adr relocs)"
    and "i < length (vals (nodes info))" and "int i < nodes_len relocs"
    and "str_to_value (fst (vals (nodes info) ! i)) = Inr adr" and "mem adr = Some n"
  shows "(\<forall>node child_id. dump_node_value rb info node NT_NODE 0 child_id = Inr (VL_RAW, []))
       \<and> (\<forall>node. nd_type node = NODE_ATTRASGN \<longrightarrow>
              dump_node_value rb info node NT_NODE 1 1 = Inr (VL_RAW OR push_bit 4 1, [1]))
       \<and> (\<forall>v. resolve_slot rb' relocs VL_RAW v = Inr v)
       \<and> (\<exists>n'. mem' (nodes_adr relocs ! i) = Some n'
            \<and> (slot_types nodes_ctbl info n ! 0 = NT_NODE \<and> u1 n = 0 \<longrightarrow> u1 n' = 0)
            \<and> (slot_types nodes_ctbl info n ! 1 = NT_NODE \<and> u2 n = 0 \<longrightarrow> u2 n' = 0)
            \<and> (slot_types nodes_ctbl info n ! 2 = NT_NODE \<and> u3 n = 0 \<longrightarrow> u3 n' = 0)
            \<and> (slot_types nodes_ctbl info n ! 0 = NT_NODE \<and> nd_type n = NODE_ATTRASGN \<and> u1 n = 1
                  \<longrightarrow> u1 n' = 1))"
proof -
  have raw0: "dump_node_value rb info node NT_NODE 0 child_id = Inr (DUMP_RAW_VALUE VL_RAW 0)"
    for node child_id
    by (simp add: dump_node_value_def NT_defs)
  have raw1: "dump_node_value rb info node NT_NODE 1 1 = Inr (DUMP_RAW_VALUE VL_RAW 1)"
    if "nd_type node = NODE_ATTRASGN" for node
    using that by (simp add: dump_node_value_def NT_defs)
  have d0: "DUMP_RAW_VALUE VL_RAW 0 = (VL_RAW, [])"
    by (simp add: DUMP_RAW_VALUE_def ex_value_to_bin)
  have d1: "DUMP_RAW_VALUE VL_RAW 1 = (VL_RAW OR push_bit 4 1, [1])"
    by (simp add: DUMP_RAW_VALUE_def ex_value_to_bin)
  have res: "resolve_slot rb' relocs VL_RAW v = Inr v" for v
    by (simp add: resolve_slot_def)
  have raw: "VL_RAW \<in> VL_codes" by (simp add: VL_codes_def)
  from decoded_node [OF assms] obtain n' vl0 x0 vl1 x1 vl2 x2 where
    n': "mem' (nodes_adr relocs ! i) = Some n'" and
    dv: "dump_node_value rb info n (slot_types nodes_ctbl info n ! 0) (u1 n) 1 = Inr (DUMP_RAW_VALUE vl0 x0)"
      "dump_node_value rb info n (slot_types nodes_ctbl info n ! 1) (u2 n) 2 = Inr (DUMP_RAW_VALUE vl1 x1)"
      "dump_node_value rb info n (slot_types nodes_ctbl info n ! 2) (u3 n) 3 = Inr (DUMP_RAW_VALUE vl2 x2)" and
    vl: "vl0 \<in> VL_codes" "vl1 \<in> VL_codes" "vl2 \<in> VL_codes" and
    rs: "resolve_slot rb' relocs vl0 x0 = Inr (u1 n')" "resolve_slot rb' relocs vl1 x1 = Inr (u2 n')"
      "resolve_slot rb' relocs vl2 x2 = Inr (u3 n')"
    by blast
  have s0: "u1 n' = 0" if "slot_types nodes_ctbl info n ! 0 = NT_NODE \<and> u1 n = 0"
  proof -
    from dv(1) that raw0 have "DUMP_RAW_VALUE vl0 x0 = DUMP_RAW_VALUE VL_RAW 0" by simp
    from DUMP_RAW_VALUE_inject [OF this vl(1) raw] rs(1) res show ?thesis by simp
  qed
  have s1: "u2 n' = 0" if "slot_types nodes_ctbl info n ! 1 = NT_NODE \<and> u2 n = 0"
  proof -
    from dv(2) that raw0 have "DUMP_RAW_VALUE vl1 x1 = DUMP_RAW_VALUE VL_RAW 0" by simp
    from DUMP_RAW_VALUE_inject [OF this vl(2) raw] rs(2) res show ?thesis by simp
  qed
  have s2: "u3 n' = 0" if "slot_types nodes_ctbl info n ! 2 = NT_NODE \<and> u3 n = 0"
  proof -
    from dv(3) that raw0 have "DUMP_RAW_VALUE vl2 x2 = DUMP_RAW_VALUE VL_RAW 0" by simp
    from DUMP_RAW_VALUE_inject [OF this vl(3) raw] rs(3) res show ?thesis by simp
  qed
  have s3: "u1 n' = 1"
    if "slot_types nodes_ctbl info n ! 0 = NT_NODE \<and> nd_type n = NODE_ATTRASGN \<and> u1 n = 1"
  proof -
    from dv(1) that raw1 [of n] have "DUMP_RAW_VALUE vl0 x0 = DUMP_RAW_VALUE VL_RAW 1" by simp
    from DUMP_RAW_VALUE_inject [OF this vl(1) raw] rs(1) res show ?thesis by simp
  qed
  from n' s0 s1 s2 s3 raw0 raw1 res show ?thesis unfolding d0 d1 by blast
qed

theorem sentinel_slots_witness:
  "\<exists>n'. ([(8192 :: VALUE) \<mapsto> \<lparr>flags = 28, nd_reserved = 0, u1 = 0, u2 = 0, u3 = 0\<rparr>] (8192 \<mapsto> \<lparr>flags = 26396, nd_reserved = 0, u1 = 1, u2 = 3000, u3 = 0\<rparr>)) 8192 = Some n' \<and> u1 n' = 1 \<and> u3 n' = 0"
proof -
  note t = sentinel_slots [OF ex_dump ex_load, of 0 4096 "\<lparr>flags = 26396, nd_reserved = 0, u1 = 1, u2 = 3000, u3 = 0\<rparr>"]
  have "distinct (nodes_adr \<lparr>syms_adr = [3000], syms_len = 1, lits_adr = [], lits_len = 0, idtbls_adr = [], idtbls_len = 0,
        gvars_adr = [], gvars_len = 0, nodes_adr = [8192], nodes_len = 1, args_adr = [], args_len = 0\<rparr>)" by simp
  from t [OF this] obtain n' where
    "([(8192 :: VALUE) \<mapsto> \<lparr>flags = 28, nd_reserved = 0, u1 = 0, u2 = 0, u3 = 0\<rparr>] (8192 \<mapsto> \<lparr>flags = 26396, nd_reserved = 0, u1 = 1, u2 = 3000, u3 = 0\<rparr>)) 8192 = Some n'"
    "u1 n' = 1" "u3 n' = 0"
    by (auto simp add: ex_str_to_value ex_slot_types nd_type_def NODE_TYPESHIFT_def
        NODE_TYPEMASK_def NODE_ATTRASGN_def)
  then show ?thesis by blast
qed


subsection \<open>Ordinals out of range\<close>

lemma table_entry_cases:
  assumes "len = int (length adr)"
  shows "table_entry adr len msg v = Inl (Raise msg)
       \<or> (unat v < length adr \<and> table_entry adr len msg v = Inr (adr ! unat v))"
    and "length adr \<le> unat v \<Longrightarrow> table_entry adr len msg v = Inl (Raise msg)"
proof -
  have le: "len mod 4294967296 \<le> len" using assms by (simp add: zmod_le_nonneg_dividend)
  have u: "uint v = int (unat v)" by simp
  show "table_entry adr len msg v = Inl (Raise msg)" if "length adr \<le> unat v"
  proof -
    from that have "len \<le> uint v" unfolding u assms by (simp only: of_nat_le_iff)
    with le have "len mod 4294967296 \<le> uint v" by (rule order_trans)
    then show ?thesis by (simp add: table_entry_def)
  qed
  then show "table_entry adr len msg v = Inl (Raise msg)
       \<or> (unat v < length adr \<and> table_entry adr len msg v = Inr (adr ! unat v))"
    by (cases "length adr \<le> unat v") (auto simp add: table_entry_def)
qed

lemma slot_table_ok:
  assumes "relocs_ok relocs" "slot_table relocs rt = Some (adr, len)"
  shows "len = int (length adr)"
  using assms unfolding relocs_ok_def slot_table_def by (auto split: if_splits)

lemma resolve_slot_table:
  assumes "slot_table relocs rt = Some (adr, len)"
  shows "\<exists>msg. resolve_slot rb relocs rt v =
      (case table_entry adr len msg v of
         Inl e \<Rightarrow> Inl e
       | Inr w \<Rightarrow> if rt = VL_NODE \<and> rb_type rb w \<noteq> T_NODE
                  then Inl (Raise ''load_nodes_from_str: nodes memory corrupted'') else Inr w)"
proof -
  have "rt = VL_NODE \<or> rt = VL_ID \<or> rt = VL_GVAR \<or> rt = VL_IDTABLE \<or> rt = VL_ARGS \<or> rt = VL_LIT"
    using assms by (auto simp add: slot_table_def split: if_splits)
  then show ?thesis
  proof (elim disjE)
    assume "rt = VL_NODE"
    with assms show ?thesis
      by (intro exI [of _ "''Cannot resolve VL_NODE entry %d''"])
         (simp add: resolve_slot_def slot_table_def VL_defs split: sum.splits)
  next
    assume "rt = VL_ID"
    with assms show ?thesis
      by (intro exI [of _ "''Cannot resolve VL_ID entry %d''"])
         (simp add: resolve_slot_def slot_table_def VL_defs split: sum.splits)
  next
    assume "rt = VL_GVAR"
    with assms show ?thesis
      by (intro exI [of _ "''Cannot resolve VL_GVAR entry %d''"])
         (simp add: resolve_slot_def slot_table_def VL_defs split: sum.splits)
  next
    assume "rt = VL_IDTABLE"
    with assms show ?thesis
      by (intro exI [of _ "''Cannot resolve VL_IDTABLE entry %d''"])
         (simp add: resolve_slot_def slot_table_def VL_defs split: sum.splits)
  next
    assume "rt = VL_ARGS"
    with assms show ?thesis
      by (intro exI [of _ "''Cannot resolve VL_ARGS entry %d''"])
         (simp add: resolve_slot_def slot_table_def VL_defs split: sum.splits)
  next
    assume "rt = VL_LIT"
    with assms show ?thesis
      by (intro exI [of _ "''Cannot resolve VL_LIT entry %d''"])
         (simp add: resolve_slot_def slot_table_def VL_defs split: sum.splits)
  qed
qed

lemma resolve_slot_none:
  assumes "slot_table relocs rt = None"
  shows "resolve_slot rb relocs rt v = (if rt = VL_RAW then Inr v else Inl (Raise ''Unknown RTYPE %d''))"
  using assms unfolding slot_table_def resolve_slot_def
  by (auto split: if_splits)

lemma resolve_slot_cases:
  assumes "relocs_ok relocs"
  shows "(\<exists>msg. resolve_slot rb relocs rt v = Inl (Raise msg)) \<or> (\<exists>w. resolve_slot rb relocs rt v = Inr w)"
    and "slot_table relocs rt = Some (adr, len) \<Longrightarrow> length adr \<le> unat v \<Longrightarrow>
           \<exists>msg. resolve_slot rb relocs rt v = Inl (Raise msg)"
    and "slot_table relocs rt = Some (adr, len) \<Longrightarrow> resolve_slot rb relocs rt v = Inr w \<Longrightarrow>
           unat v < length adr \<and> w = adr ! unat v"
    and "slot_table relocs rt = Some (adr, len) \<Longrightarrow> rt = VL_NODE \<Longrightarrow> unat v < length adr \<Longrightarrow>
           rb_type rb (adr ! unat v) \<noteq> T_NODE \<Longrightarrow> \<exists>msg. resolve_slot rb relocs rt v = Inl (Raise msg)"
proof -
  show "(\<exists>msg. resolve_slot rb relocs rt v = Inl (Raise msg)) \<or> (\<exists>w. resolve_slot rb relocs rt v = Inr w)"
  proof (cases "slot_table relocs rt")
    case None
    from resolve_slot_none [OF this] show ?thesis by auto
  next
    case (Some t)
    obtain adr len where t: "t = (adr, len)" by (cases t)
    from resolve_slot_table [OF Some [unfolded t]] obtain msg where
      r: "resolve_slot rb relocs rt v =
        (case table_entry adr len msg v of
           Inl e \<Rightarrow> Inl e
         | Inr w \<Rightarrow> if rt = VL_NODE \<and> rb_type rb w \<noteq> T_NODE
                    then Inl (Raise ''load_nodes_from_str: nodes memory corrupted'') else Inr w)"
      by blast
    from table_entry_cases(1) [OF slot_table_ok [OF assms Some [unfolded t]], of msg v]
    show ?thesis unfolding r
      by (cases "rt = VL_NODE \<and> rb_type rb (adr ! unat v) \<noteq> T_NODE") auto
  qed
next
  assume st: "slot_table relocs rt = Some (adr, len)" and out: "length adr \<le> unat v"
  from resolve_slot_table [OF st] obtain msg where
    r: "resolve_slot rb relocs rt v =
      (case table_entry adr len msg v of
         Inl e \<Rightarrow> Inl e
       | Inr w \<Rightarrow> if rt = VL_NODE \<and> rb_type rb w \<noteq> T_NODE
                  then Inl (Raise ''load_nodes_from_str: nodes memory corrupted'') else Inr w)"
    by blast
  from table_entry_cases(2) [OF slot_table_ok [OF assms st] out, of msg]
  show "\<exists>msg. resolve_slot rb relocs rt v = Inl (Raise msg)" unfolding r by simp
next
  assume st: "slot_table relocs rt = Some (adr, len)" and ok: "resolve_slot rb relocs rt v = Inr w"
  from resolve_slot_table [OF st] obtain msg where
    r: "resolve_slot rb relocs rt v =
      (case table_entry adr len msg v of
         Inl e \<Rightarrow> Inl e
       | Inr w \<Rightarrow> if rt = VL_NODE \<and> rb_type rb w \<noteq> T_NODE
                  then Inl (Raise ''load_nodes_from_str: nodes memory corrupted'') else Inr w)"
    by blast
  from table_entry_cases(1) [OF slot_table_ok [OF assms st], of msg v] ok
  show "unat v < length adr \<and> w = adr ! unat v" unfolding r by (auto split: if_splits)
next
  assume st: "slot_table relocs rt = Some (adr, len)" and n: "rt = VL_NODE"
    and inr: "unat v < length adr" and ty: "rb_type rb (adr ! unat v) \<noteq> T_NODE"
  from resolve_slot_table [OF st] obtain msg where
    r: "resolve_slot rb relocs rt v =
      (case table_entry adr len msg v of
         Inl e \<Rightarrow> Inl e
       | Inr w \<Rightarrow> if rt = VL_NODE \<and> rb_type rb w \<noteq> T_NODE
                  then Inl (Raise ''load_nodes_from_str: nodes memory corrupted'') else Inr w)"
    by blast
  from table_entry_cases(1) [OF slot_table_ok [OF assms st], of msg v] n ty
  show "\<exists>msg. resolve_slot rb relocs rt v = Inl (Raise msg)" unfolding r by auto
qed


lemma load_node_slots:
  assumes ok: "relocs_ok relocs" and rd: "read_node str p = Inr (rtypes, fl, u, p')"
  shows "(\<exists>msg. load_node rb relocs str p = Inl (Raise msg))
       \<or> (\<exists>node. load_node rb relocs str p = Inr (node, p')
             \<and> resolve_slot rb relocs (rtypes ! 0) (u ! 0) = Inr (u1 node)
             \<and> resolve_slot rb relocs (rtypes ! 1) (u ! 1) = Inr (u2 node)
             \<and> resolve_slot rb relocs (rtypes ! 2) (u ! 2) = Inr (u3 node))"
    and "j < 3 \<Longrightarrow> \<exists>msg. resolve_slot rb relocs (rtypes ! j) (u ! j) = Inl (Raise msg) \<Longrightarrow>
         \<exists>msg. load_node rb relocs str p = Inl (Raise msg)"
proof -
  note c0 = resolve_slot_cases(1) [OF ok, of rb "rtypes ! 0" "u ! 0"]
  note c1 = resolve_slot_cases(1) [OF ok, of rb "rtypes ! 1" "u ! 1"]
  note c2 = resolve_slot_cases(1) [OF ok, of rb "rtypes ! 2" "u ! 2"]
  show "(\<exists>msg. load_node rb relocs str p = Inl (Raise msg))
       \<or> (\<exists>node. load_node rb relocs str p = Inr (node, p')
             \<and> resolve_slot rb relocs (rtypes ! 0) (u ! 0) = Inr (u1 node)
             \<and> resolve_slot rb relocs (rtypes ! 1) (u ! 1) = Inr (u2 node)
             \<and> resolve_slot rb relocs (rtypes ! 2) (u ! 2) = Inr (u3 node))"
    using c0 c1 c2 unfolding load_node_def rd Let_def by (auto split: sum.splits)
  assume j: "j < 3" and e: "\<exists>msg. resolve_slot rb relocs (rtypes ! j) (u ! j) = Inl (Raise msg)"
  from j have "j = 0 \<or> j = 1 \<or> j = 2" by auto
  then show "\<exists>msg. load_node rb relocs str p = Inl (Raise msg)"
    using e c0 c1 c2 unfolding load_node_def rd Let_def by (auto split: sum.splits)
qed

text \<open>
  Claim C5. Let the decoder have read the record of a node (\<open>read_node\<close>), with the stored
  length of every table being the length of the table, and let the location code of slot
  \<open>j\<close> name a table. If the stored ordinal \<open>u ! j\<close> is out of range for that table, the
  loop body raises; if the code is \<open>VL_NODE\<close>, the ordinal is in range and the entry of the
  node table is not of type \<open>T_NODE\<close>, the loop body raises; and whenever the loop body
  returns a node, the ordinal is in range and the slot holds the entry of the table at that
  ordinal, never another value. An error of the loop body is the error of the loop.
\<close>

theorem ordinal_checks:
  assumes "relocs_ok relocs"
    and "read_node str p = Inr (rtypes, fl, u, p')"
    and "j < 3"
    and "slot_table relocs (rtypes ! j) = Some (adr, len)"
  shows "(length adr \<le> unat (u ! j) \<longrightarrow> (\<exists>msg. load_node rb relocs str p = Inl (Raise msg)))
       \<and> (rtypes ! j = VL_NODE \<and> unat (u ! j) < length adr \<and> rb_type rb (adr ! unat (u ! j)) \<noteq> T_NODE
            \<longrightarrow> (\<exists>msg. load_node rb relocs str p = Inl (Raise msg)))
       \<and> (\<forall>node q. load_node rb relocs str p = Inr (node, q) \<longrightarrow>
             unat (u ! j) < length adr \<and> [u1 node, u2 node, u3 node] ! j = adr ! unat (u ! j))
       \<and> (\<forall>msg i rest mem. load_node rb relocs str p = Inl (Raise msg) \<longrightarrow>
             load_loop rb relocs str (i # rest) p mem = Inl (Raise msg))"
proof -
  have a: "\<exists>msg. load_node rb relocs str p = Inl (Raise msg)" if "length adr \<le> unat (u ! j)"
    using load_node_slots(2) [OF assms(1,2,3)] resolve_slot_cases(2) [OF assms(1,4) that] by blast
  have b: "\<exists>msg. load_node rb relocs str p = Inl (Raise msg)"
    if "rtypes ! j = VL_NODE \<and> unat (u ! j) < length adr \<and> rb_type rb (adr ! unat (u ! j)) \<noteq> T_NODE"
    using load_node_slots(2) [OF assms(1,2,3)] resolve_slot_cases(4) [OF assms(1,4), of "u ! j" rb] that
    by blast
  have c: "unat (u ! j) < length adr \<and> [u1 node, u2 node, u3 node] ! j = adr ! unat (u ! j)"
    if "load_node rb relocs str p = Inr (node, q)" for node q
  proof -
    from load_node_slots(1) [OF assms(1,2), of rb] that have
      r: "resolve_slot rb relocs (rtypes ! 0) (u ! 0) = Inr (u1 node)"
         "resolve_slot rb relocs (rtypes ! 1) (u ! 1) = Inr (u2 node)"
         "resolve_slot rb relocs (rtypes ! 2) (u ! 2) = Inr (u3 node)"
      by auto
    from assms(3) have "j = 0 \<or> j = 1 \<or> j = 2" by auto
    then have "resolve_slot rb relocs (rtypes ! j) (u ! j) = Inr ([u1 node, u2 node, u3 node] ! j)"
      using r by auto
    from resolve_slot_cases(3) [OF assms(1,4) this] show ?thesis .
  qed
  have d: "load_loop rb relocs str (i # rest) p mem = Inl (Raise msg)"
    if "load_node rb relocs str p = Inl (Raise msg)" for msg i rest mem
    using that by simp
  from a b c d show ?thesis by blast
qed

lemma ex_read_node: "read_node [17, 0, 0, 0, 5, 0] 0 = Inr ([1, 0, 0], 0, [5, 0, 0], 5)"
  by (simp add: read_node_def fetch_def read_value_def bin_to_value_def val_len_def)

theorem ordinal_checks_witness:
  "\<exists>msg. load_node \<lparr>rb_type = \<lambda>v. T_NODE, RESET_GC_FLAGS = False\<rparr>
      \<lparr>syms_adr = [3000], syms_len = 1, lits_adr = [], lits_len = 0, idtbls_adr = [], idtbls_len = 0,
        gvars_adr = [], gvars_len = 0, nodes_adr = [8192], nodes_len = 1, args_adr = [], args_len = 0\<rparr>
      [17, 0, 0, 0, 5, 0] 0 = Inl (Raise msg)"
proof -
  have ok: "relocs_ok \<lparr>syms_adr = [3000], syms_len = 1, lits_adr = [], lits_len = 0, idtbls_adr = [], idtbls_len = 0,
        gvars_adr = [], gvars_len = 0, nodes_adr = [8192], nodes_len = 1, args_adr = [], args_len = 0\<rparr>"
    by (simp add: relocs_ok_def)
  have st: "slot_table \<lparr>syms_adr = [3000], syms_len = 1, lits_adr = [], lits_len = 0, idtbls_adr = [], idtbls_len = 0,
        gvars_adr = [], gvars_len = 0, nodes_adr = [8192], nodes_len = 1, args_adr = [], args_len = 0\<rparr> ([1, 0, 0] ! 0) = Some ([8192], 1)"
    by (simp add: slot_table_def VL_defs)
  from ordinal_checks [OF ok ex_read_node _ st, of "\<lparr>rb_type = \<lambda>v. T_NODE, RESET_GC_FLAGS = False\<rparr>"]
  show ?thesis by simp
qed

end
